theory Spec2Isabelle
  imports
    Main
    "HOL-Library.Char_ord"
    "HOL-Library.List_Lexorder"
    "HOL-Library.Sublist"
    "HOL-Library.FSet"
    "HOL-Library.Finite_Map"
begin

section \<open>Remake: a shallow embedding of \<^verbatim>\<open>remake.cpp\<close>\<close>

text \<open>
  The development follows the source file from top to bottom: the data model, the
  word-level reader and writer of the dependency database, the rule loader, the rule
  matcher, the status cache, and the scheduler with its counters. Strings are byte
  lists, \<^verbatim>\<open>std::map\<close> is a partial function, \<^verbatim>\<open>std::set<std::string>\<close> is a
  set that is iterated in increasing order, and every \<^verbatim>\<open>exit\<close> or failed
  \<^verbatim>\<open>assert\<close> is a value of a sum type.
\<close>

subsection \<open>Characters and \<^verbatim>\<open>strchr\<close>\<close>

abbreviation dquote :: char where "dquote \<equiv> CHR 0x22"
abbreviation backslash :: char where "backslash \<equiv> CHR 0x5C"
abbreviation tab :: char where "tab \<equiv> CHR 0x09"
abbreviation lf :: char where "lf \<equiv> CHR 0x0A"
abbreviation cr :: char where "cr \<equiv> CHR 0x0D"
abbreviation nul :: char where "nul \<equiv> CHR 0x00"

text \<open>
  \<^verbatim>\<open>strchr(str, c)\<close> used as a truth value: it finds \<open>c\<close> in \<open>str\<close>, and it also
  finds the terminating NUL of the literal when \<open>c\<close> is NUL.
\<close>

definition strchr :: "string \<Rightarrow> char \<Rightarrow> bool" where
  "strchr str c = (c \<in> set str \<or> c = nul)"

text \<open>The literal \<^verbatim>\<open>"\" \\$!"\<close> of \<^verbatim>\<open>escape_string\<close>.\<close>

definition escape_chars :: string where
  "escape_chars = [dquote, CHR '' '', backslash, CHR ''$'', CHR ''!'']"

text \<open>The literal \<^verbatim>\<open>" \t\r\n:"\<close> of \<^verbatim>\<open>read_word\<close>.\<close>

definition word_delims :: string where
  "word_delims = [CHR '' '', tab, cr, lf, CHR '':'']"

subsection \<open>\<^verbatim>\<open>escape_string\<close>\<close>

text \<open>The first loop: \<open>nb\<close> starts at \<open>len\<close> and grows by one per special character.\<close>

fun escape_count :: "string \<Rightarrow> nat \<Rightarrow> nat" where
  "escape_count [] nb = nb"
| "escape_count (c # cs) nb = escape_count cs (if strchr escape_chars c then nb + 1 else nb)"

text \<open>
  The second loop writes \<open>s[i]\<close> at \<open>t[j]\<close>, skipping one cell (which keeps the
  backslash the buffer was filled with) before a special character. The argument is
  the rest of \<open>s\<close> from index \<open>i\<close> on.
\<close>

fun escape_fill :: "string \<Rightarrow> nat \<Rightarrow> string \<Rightarrow> string" where
  "escape_fill [] j t = t"
| "escape_fill (c # cs) j t =
     (let j' = (if strchr escape_chars c then j + 1 else j)
      in escape_fill cs (j' + 1) (t[j' := c]))"

definition escape_string :: "string \<Rightarrow> string" where
  "escape_string s =
     (let len = length s; nb = escape_count s len
      in if nb = len then s
         else let t = replicate (nb + 2) backslash;
                  t = t[0 := dquote];
                  t = escape_fill s 1 t
              in t[nb + 1 := dquote])"

subsection \<open>Input streams\<close>

text \<open>
  A \<^verbatim>\<open>std::istream\<close> over a file: the bytes not yet read and the two state bits
  the program looks at. \<^verbatim>\<open>get\<close> returns \<open>-1\<close> (EOF) and sets both bits at the end
  of the input; on a stream that is not good it only sets \<^verbatim>\<open>failbit\<close>.
\<close>

record istream =
  content :: string
  eofbit :: bool
  failbit :: bool

definition open_stream :: "string \<Rightarrow> istream" where
  "open_stream s = \<lparr>content = s, eofbit = False, failbit = False\<rparr>"

definition good :: "istream \<Rightarrow> bool" where
  "good ins = (\<not> eofbit ins \<and> \<not> failbit ins)"

definition get :: "istream \<Rightarrow> int \<times> istream" where
  "get ins =
     (if \<not> good ins then (-1, ins\<lparr>failbit := True\<rparr>)
      else case content ins of
             [] \<Rightarrow> (-1, ins\<lparr>eofbit := True, failbit := True\<rparr>)
           | c # cs \<Rightarrow> (of_char c, ins\<lparr>content := cs\<rparr>))"

definition putback :: "char \<Rightarrow> istream \<Rightarrow> istream" where
  "putback c ins =
     (if \<not> good ins then ins\<lparr>failbit := True\<rparr>
      else ins\<lparr>content := c # content ins\<rparr>)"

text \<open>Conversion of the \<^verbatim>\<open>int\<close> returned by \<^verbatim>\<open>get\<close> to \<^verbatim>\<open>char\<close>.\<close>

definition to_char :: "int \<Rightarrow> char" where
  "to_char c = char_of c"

lemma to_char_eof: "to_char (- 1) = CHR 0xFF"
  by (simp add: to_char_def char_of_def bit_simps)

lemma to_char_of_char: "to_char (of_char c) = c"
  by (simp add: to_char_def)

subsection \<open>\<^verbatim>\<open>skip_spaces\<close>, \<^verbatim>\<open>skip_eol\<close>, \<^verbatim>\<open>read_word\<close>\<close>

function skip_spaces :: "istream \<Rightarrow> istream" where
  "skip_spaces ins =
     (let (c, ins') = get ins
      in if to_char c = CHR '' '' then skip_spaces ins'
         else if good ins' then putback (to_char c) ins' else ins')"
  by pat_completeness auto
termination
  by (relation "measure (\<lambda>ins. length (content ins))")
     (auto simp: get_def good_def to_char_eof split: if_splits list.splits)

function skip_eol :: "istream \<Rightarrow> istream" where
  "skip_eol ins =
     (let (c, ins') = get ins
      in if strchr [cr, lf] (to_char c) then skip_eol ins'
         else if good ins' then putback (to_char c) ins' else ins')"
  by pat_completeness auto
termination
  by (relation "measure (\<lambda>ins. length (content ins))")
     (auto simp: get_def good_def to_char_eof strchr_def split: if_splits list.splits)

text \<open>The \<^verbatim>\<open>while (true)\<close> loop of \<^verbatim>\<open>read_word\<close>.\<close>

function read_word_loop :: "bool \<Rightarrow> istream \<Rightarrow> string \<Rightarrow> string \<times> istream" where
  "read_word_loop quoted ins res =
     (let (c, ins1) = get ins
      in if \<not> good ins1 then (res, ins1)
         else if quoted then
           (if to_char c = backslash then
              (let (c2, ins2) = get ins1 in read_word_loop quoted ins2 (res @ [to_char c2]))
            else if to_char c = dquote then (res, ins1)
            else read_word_loop quoted ins1 (res @ [to_char c]))
         else
           (if strchr word_delims (to_char c) then (res, putback (to_char c) ins1)
            else read_word_loop quoted ins1 (res @ [to_char c])))"
  by pat_completeness auto
termination
  by (relation "measure (\<lambda>(q, ins, res). length (content ins))")
     (auto simp: get_def good_def split: if_splits list.splits)

definition read_word :: "istream \<Rightarrow> string \<times> istream" where
  "read_word ins =
     (let (c, ins1) = get ins; res = []
      in if \<not> good ins1 then (res, ins1)
         else if strchr word_delims (to_char c) then (res, putback (to_char c) ins1)
         else let quoted = (to_char c = dquote);
                  res = (if \<not> quoted then res @ [to_char c] else res)
              in read_word_loop quoted ins1 res)"

declare skip_spaces.simps [simp del] skip_eol.simps [simp del] read_word_loop.simps [simp del]

subsection \<open>Data model\<close>

type_synonym string_list = "string list"

type_synonym string_set = "string fset"

type_synonym dependency_map = "(string, string_set) fmap"

datatype status_e = Uptodate | Todo | Running | Remade | Failed

text \<open>\<^verbatim>\<open>time_t\<close> is a signed count of seconds; it is never computed with, only compared.\<close>

type_synonym time_t = int

record status_t =
  status :: status_e
  last_modified :: time_t

type_synonym status_map = "string \<rightharpoonup> status_t"

record rule_t =
  generic :: bool
  targets :: string_list
  deps :: string_list
  script :: string

text \<open>The default constructor \<^verbatim>\<open>rule_t()\<close>.\<close>

definition rule_t0 :: rule_t where
  "rule_t0 = \<lparr>generic = False, targets = [], deps = [], script = []\<rparr>"

type_synonym rule_list = "rule_t list"

subsection \<open>\<^verbatim>\<open>substitute_pattern\<close> and \<^verbatim>\<open>find_rule\<close>\<close>

text \<open>\<^verbatim>\<open>s.find(c)\<close>: the first position of \<open>c\<close>, or \<^verbatim>\<open>npos\<close> (here \<open>None\<close>).\<close>

fun find_char :: "char \<Rightarrow> string \<Rightarrow> nat option" where
  "find_char c [] = None"
| "find_char c (x # xs) =
     (if x = c then Some 0 else map_option Suc (find_char c xs))"

text \<open>\<^verbatim>\<open>s.substr(pos, n)\<close> for \<open>pos \<le> length s\<close>.\<close>

definition substr :: "string \<Rightarrow> nat \<Rightarrow> nat \<Rightarrow> string" where
  "substr s pos n = take n (drop pos s)"

text \<open>
  \<^verbatim>\<open>s.compare(pos1, n1, t, pos2, n2)\<close> used as a truth value: non-zero exactly when
  the two substrings differ.
\<close>

definition compare_ne :: "string \<Rightarrow> nat \<Rightarrow> nat \<Rightarrow> string \<Rightarrow> nat \<Rightarrow> nat \<Rightarrow> bool" where
  "compare_ne s pos1 n1 t pos2 n2 = (substr s pos1 n1 \<noteq> substr t pos2 n2)"

fun substitute_pattern :: "string \<Rightarrow> string_list \<Rightarrow> string_list \<Rightarrow> string_list" where
  "substitute_pattern pat [] dst = dst"
| "substitute_pattern pat (i # src) dst =
     substitute_pattern pat src
       (case find_char CHR ''%'' i of
          None \<Rightarrow> dst @ [i]
        | Some pos \<Rightarrow> dst @ [substr i 0 pos @ pat @ drop (pos + 1) i])"

text \<open>
  The inner loop of \<^verbatim>\<open>find_rule\<close> over the targets \<open>j\<close> of rule \<open>i\<close>. \<open>Inl\<close> is the
  \<^verbatim>\<open>return *i\<close> of a non-generic rule; \<open>Inr\<close> carries \<open>plen\<close> and \<open>rule\<close> to the
  next rule, after the \<^verbatim>\<open>break\<close> or at the end of the targets.

  Lengths are \<^verbatim>\<open>size_t\<close>. In \<^verbatim>\<open>tlen - (len - 1)\<close> the inner subtraction wraps only
  for an empty \<open>j\<close>, which has no \<^verbatim>\<open>%\<close>: both the wrapped test and the truncated
  one below then end in \<^verbatim>\<open>continue\<close>. The outer one is evaluated only after
  \<^verbatim>\<open>tlen < len\<close> has failed.
\<close>

fun find_rule_targets ::
  "string \<Rightarrow> rule_t \<Rightarrow> string_list \<Rightarrow> nat \<Rightarrow> rule_t \<Rightarrow> rule_t + nat \<times> rule_t" where
  "find_rule_targets target i [] plen rule = Inr (plen, rule)"
| "find_rule_targets target i (j # js) plen rule =
     (let tlen = length target in
      if \<not> generic i then
        (if j = target then Inl i else find_rule_targets target i js plen rule)
      else
        let len = length j in
        if tlen < len then find_rule_targets target i js plen rule
        else if plen \<le> tlen - (len - 1) then find_rule_targets target i js plen rule
        else
          (case find_char CHR ''%'' j of
             None \<Rightarrow> find_rule_targets target i js plen rule
           | Some pos \<Rightarrow>
               let len2 = len - (pos + 1) in
               if compare_ne j 0 pos target 0 pos \<or>
                  compare_ne j (pos + 1) len2 target (tlen - len2) len2
               then find_rule_targets target i js plen rule
               else
                 let plen = tlen - (len - 1);
                     pat = substr target pos plen;
                     rule = rule_t0;
                     rule = rule\<lparr>script := script i\<rparr>;
                     rule = rule\<lparr>targets := substitute_pattern pat (targets i) (targets rule)\<rparr>;
                     rule = rule\<lparr>deps := substitute_pattern pat (deps i) (deps rule)\<rparr>
                 in Inr (plen, rule)))"

fun find_rule_loop :: "string \<Rightarrow> rule_list \<Rightarrow> nat \<Rightarrow> rule_t \<Rightarrow> rule_t" where
  "find_rule_loop target [] plen rule = rule"
| "find_rule_loop target (i # is) plen rule =
     (case find_rule_targets target i (targets i) plen rule of
        Inl r \<Rightarrow> r
      | Inr (plen', rule') \<Rightarrow> find_rule_loop target is plen' rule')"

definition find_rule :: "rule_list \<Rightarrow> string \<Rightarrow> rule_t" where
  "find_rule rules target = find_rule_loop target rules 10000 rule_t0"

subsection \<open>The rule matcher as the specification words it\<close>

text \<open>
  The definitions of this subsection follow the specification, not the code: they are
  what \<^const>\<open>find_rule\<close> is compared with. A pattern \<open>P = prefix % suffix\<close> matches a
  target that begins with \<open>prefix\<close>, ends with \<open>suffix\<close> and is long enough for a stem of
  at least \<open>m\<close> characters between them; the stem is what \<^verbatim>\<open>%\<close> stands for. The
  specification's own text has \<open>m = 0\<close>.
\<close>

definition spec_stem :: "nat \<Rightarrow> string \<Rightarrow> string \<Rightarrow> string option" where
  "spec_stem m p target =
     (case find_char CHR ''%'' p of
        None \<Rightarrow> None
      | Some pos \<Rightarrow>
          let pre = take pos p; suf = drop (pos + 1) p in
          if length pre + length suf + m \<le> length target \<and> prefix pre target \<and> suffix suf target
          then Some (take (length target - (length pre + length suf)) (drop (length pre) target))
          else None)"

definition subst_stem :: "string \<Rightarrow> string \<Rightarrow> string" where
  "subst_stem stem p =
     (case find_char CHR ''%'' p of
        None \<Rightarrow> p
      | Some pos \<Rightarrow> take pos p @ stem @ drop (pos + 1) p)"

definition instantiate :: "rule_t \<Rightarrow> string \<Rightarrow> rule_t" where
  "instantiate r stem =
     \<lparr>generic = False, targets = map (subst_stem stem) (targets r),
      deps = map (subst_stem stem) (deps r), script = script r\<rparr>"

text \<open>Every generic rule with every stem one of its target patterns matches with, in source order.\<close>

definition candidates :: "nat \<Rightarrow> rule_list \<Rightarrow> string \<Rightarrow> (rule_t \<times> string) list" where
  "candidates m rules target =
     concat (map (\<lambda>r. if generic r
                         then map (Pair r) (List.map_filter (\<lambda>p. spec_stem m p target) (targets r))
                         else []) rules)"

text \<open>The candidate with the shortest stem; among equals, the first.\<close>

fun shortest :: "(rule_t \<times> string) list \<Rightarrow> (rule_t \<times> string) option" where
  "shortest [] = None"
| "shortest (c # cs) =
     (case shortest cs of
        None \<Rightarrow> Some c
      | Some d \<Rightarrow> if length (snd d) < length (snd c) then Some d else Some c)"

definition spec_find_rule :: "nat \<Rightarrow> rule_list \<Rightarrow> string \<Rightarrow> rule_t" where
  "spec_find_rule m rules target =
     (case find (\<lambda>r. \<not> generic r \<and> target \<in> set (targets r)) rules of
        Some r \<Rightarrow> r
      | None \<Rightarrow>
          (case shortest (candidates m rules target) of
             None \<Rightarrow> rule_t0
           | Some (r, stem) \<Rightarrow> instantiate r stem))"

text \<open>At most one target pattern of each generic rule matches the target.\<close>

definition single_match :: "rule_list \<Rightarrow> string \<Rightarrow> bool" where
  "single_match rules target =
     list_all (\<lambda>r. generic r \<longrightarrow>
                 length (List.map_filter (\<lambda>p. spec_stem 1 p target) (targets r)) \<le> 1) rules"

subsection \<open>The server's state\<close>

text \<open>
  A client of the scheduler. \<open>fd\<close> and \<open>job_id\<close> are negative when absent, as in the
  source; \<open>delayed\<close> is the owned pointer, \<open>None\<close> for \<^verbatim>\<open>NULL\<close>.
\<close>

record client_t =
  fd :: int
  job_id :: int
  pending :: string_list
  running :: string_set
  delayed :: "rule_t option"

definition client_t0 :: client_t where
  "client_t0 = \<lparr>fd = - 1, job_id = - 1, pending = [], running = {||}, delayed = None\<rparr>"

type_synonym client_list = "client_t list"

type_synonym job_targets_map = "int \<rightharpoonup> string_list"

type_synonym pid_job_map = "int \<rightharpoonup> int"

text \<open>
  The globals of the program, and with them what the program sees of the outside: the
  files that \<^verbatim>\<open>stat\<close> finds with their modification times, the bytes of the files
  that can be opened, the paths on which \<^verbatim>\<open>remove\<close> would succeed, the results the
  successive calls of \<^verbatim>\<open>fork\<close> will have, and the reply bytes sent so far. The globals \<^verbatim>\<open>deps\<close>
  and \<^verbatim>\<open>status\<close> are the fields \<open>g_deps\<close> and \<open>g_status\<close>, since \<open>deps\<close> and \<open>status\<close>
  already name fields of \<^typ>\<open>rule_t\<close> and \<^typ>\<open>status_t\<close>. The \<^verbatim>\<open>int\<close> counters are
  unbounded integers: each counts processes or connections that exist at one time.
\<close>

record state =
  g_deps :: dependency_map
  g_status :: status_map
  rules :: rule_list
  job_targets :: job_targets_map
  job_pids :: pid_job_map
  clients :: client_list
  max_active_jobs :: int
  running_jobs :: int
  waiting_jobs :: int
  job_counter :: int
  build_failure :: bool
  files :: "string \<rightharpoonup> time_t"
  contents :: "string \<rightharpoonup> string"
  remove_ok :: "string \<Rightarrow> bool"
  fork_results :: "nat \<Rightarrow> int"
  forks :: nat
  sent :: "(int \<times> nat) list"

text \<open>
  What ends the process instead of a return: a failed \<^verbatim>\<open>assert\<close>; the \<^verbatim>\<open>exit(1)\<close> of an
  error path (a file that cannot be loaded, a system call that failed); the \<^verbatim>\<open>exit\<close> with
  a computed status that ends \<^verbatim>\<open>server_mode\<close>, \<^verbatim>\<open>client_mode\<close> and \<^verbatim>\<open>usage\<close>; and, in
  the child of \<^verbatim>\<open>fork\<close>, becoming the shell.
\<close>

datatype abort = Assert_failed | Error_exit | Exit int | Child_exec


definition then_do :: "abort + 'a \<Rightarrow> ('a \<Rightarrow> abort + 'b) \<Rightarrow> abort + 'b" where
  "then_do r f = (case r of Inl e \<Rightarrow> Inl e | Inr x \<Rightarrow> f x)"

subsection \<open>\<^verbatim>\<open>get_status\<close>\<close>

text \<open>The value-initialised \<^verbatim>\<open>status_t()\<close>: the first enumerator and time zero.\<close>

definition status_t0 :: status_t where
  "status_t0 = \<lparr>status = Uptodate, last_modified = 0\<rparr>"

text \<open>\<^verbatim>\<open>status[t]\<close> and \<^verbatim>\<open>deps[t]\<close> as values: \<^verbatim>\<open>operator[]\<close> makes a default entry.\<close>

definition status_at :: "status_map \<Rightarrow> string \<Rightarrow> status_t" where
  "status_at m t = (case m t of None \<Rightarrow> status_t0 | Some ts \<Rightarrow> ts)"

definition deps_at :: "dependency_map \<Rightarrow> string \<Rightarrow> string_set" where
  "deps_at m t = (case fmlookup m t of None \<Rightarrow> {||} | Some d \<Rightarrow> d)"

text \<open>\<^verbatim>\<open>status[t].status = s\<close>.\<close>

definition set_status :: "string \<Rightarrow> status_e \<Rightarrow> status_map \<Rightarrow> status_map" where
  "set_status t s m = m(t \<mapsto> (status_at m t)\<lparr>status := s\<rparr>)"

text \<open>The entry \<^verbatim>\<open>deps[t]\<close> comes into being when it is first looked at.\<close>

definition deps_touch :: "string \<Rightarrow> dependency_map \<Rightarrow> dependency_map" where
  "deps_touch t m = fmupd t (deps_at m t) m"

text \<open>The label \<^verbatim>\<open>obsolete\<close>: \<open>ts.status = Todo; return ts\<close>.\<close>

definition obsolete :: "string \<Rightarrow> state \<Rightarrow> status_t \<times> state" where
  "obsolete target st =
     (let st = st\<lparr>g_status := set_status target Todo (g_status st)\<rparr>
      in (status_at (g_status st) target, st))"

definition uptodate :: "string \<Rightarrow> time_t \<Rightarrow> state \<Rightarrow> status_t \<times> state" where
  "uptodate target mtime st =
     (let ts = (status_at (g_status st) target)\<lparr>status := Uptodate, last_modified := mtime\<rparr>;
          st = st\<lparr>g_status := (g_status st)(target \<mapsto> ts)\<rparr>
      in (ts, st))"

function get_status :: "string \<Rightarrow> state \<Rightarrow> status_t \<times> state"
  and get_status_deps :: "string list \<Rightarrow> time_t \<Rightarrow> state \<Rightarrow> bool \<times> state" where
  "get_status target st =
     (case g_status st target of
        Some ts \<Rightarrow> (ts, st)
      | None \<Rightarrow>
          let st = st\<lparr>g_status := (g_status st)(target \<mapsto> status_t0)\<rparr> in
          (case files st target of
             None \<Rightarrow> obsolete target st
           | Some mtime \<Rightarrow>
               let st = st\<lparr>g_deps := deps_touch target (g_deps st)\<rparr>;
                   (obs, st) = get_status_deps (sorted_list_of_fset (deps_at (g_deps st) target)) mtime st
               in if obs then obsolete target st else uptodate target mtime st))"
| "get_status_deps [] mtime st = (False, st)"
| "get_status_deps (k # ks) mtime st =
     (let (ts, st) = get_status k st
      in if status ts \<noteq> Uptodate \<or> last_modified ts > mtime then (True, st)
         else get_status_deps ks mtime st)"
  by pat_completeness auto


text \<open>
  Termination. Every name the recursion can reach is a key of \<^verbatim>\<open>deps\<close>, a member of one
  of its sets, or the argument; a call that goes on to the dependencies has first put its
  target into \<^verbatim>\<open>status\<close>, and no entry ever leaves \<^verbatim>\<open>status\<close>.
\<close>

definition names :: "dependency_map \<Rightarrow> string set" where
  "names m = fmdom' m \<union> (\<Union>d \<in> fmran' m. fset d)"

definition grows :: "state \<Rightarrow> state \<Rightarrow> bool" where
  "grows st st' \<longleftrightarrow>
     dom (g_status st) \<subseteq> dom (g_status st') \<and>
     names (g_deps st') \<subseteq> names (g_deps st) \<union> dom (g_status st')"

lemma finite_names: "finite (names m)"
  by (simp add: names_def fmran'_alt_def)

lemma names_deps_touch: "names (deps_touch t m) = insert t (names m)"
proof (cases "fmlookup m t")
  case None
  have "fmran' (deps_touch t m) = insert {||} (fmran' m)"
  proof (intro set_eqI iffI)
    fix d assume "d \<in> fmran' (deps_touch t m)"
    then obtain k where "fmlookup (deps_touch t m) k = Some d"
      by (auto simp: fmlookup_ran'_iff)
    then show "d \<in> insert {||} (fmran' m)"
      using None by (cases "k = t") (auto simp: deps_touch_def deps_at_def fmlookup_ran'_iff)
  next
    fix d assume "d \<in> insert {||} (fmran' m)"
    then consider "d = {||}" | k where "fmlookup m k = Some d"
      by (auto simp: fmlookup_ran'_iff)
    then show "d \<in> fmran' (deps_touch t m)"
    proof cases
      case 1
      have "fmlookup (deps_touch t m) t = Some {||}"
        using None by (simp add: deps_touch_def deps_at_def)
      then show ?thesis unfolding 1 by (rule fmran'I)
    next
      case 2
      then have "k \<noteq> t" using None by auto
      then have "fmlookup (deps_touch t m) k = Some d"
        using 2 by (simp add: deps_touch_def)
      then show ?thesis by (rule fmran'I)
    qed
  qed
  then show ?thesis by (simp add: names_def deps_touch_def)
next
  case (Some d)
  then have "deps_touch t m = m"
    by (intro fmap_ext) (auto simp: deps_touch_def deps_at_def)
  moreover have "t \<in> names m" using Some by (simp add: names_def fmdom'I)
  ultimately show ?thesis by (simp add: insert_absorb)
qed

lemma deps_at_names: "fset (deps_at m t) \<subseteq> names m"
  by (auto simp: deps_at_def names_def fmran'_def split: option.splits)


lemma grows_refl: "grows st st"
  by (simp add: grows_def)

lemma grows_trans: "grows a b \<Longrightarrow> grows b c \<Longrightarrow> grows a c"
  unfolding grows_def by blast

lemma grows_obsolete: "grows st (snd (obsolete t st))"
  by (auto simp: grows_def obsolete_def set_status_def Let_def)

lemma grows_uptodate: "grows st (snd (uptodate t m st))"
  by (auto simp: grows_def uptodate_def Let_def)

lemma grows_enter:
  "grows st (st\<lparr>g_status := (g_status st)(t \<mapsto> e)\<rparr>\<lparr>g_deps := deps_touch t (g_deps st)\<rparr>)"
  by (auto simp: grows_def names_deps_touch)

lemma grows_mark: "grows st (st\<lparr>g_status := (g_status st)(t \<mapsto> e)\<rparr>)"
  by (auto simp: grows_def)

lemma get_status_grows_dom:
  "get_status_get_status_deps_dom (Inl (target, st)) \<Longrightarrow> grows st (snd (get_status target st))"
  "get_status_get_status_deps_dom (Inr (ks, mtime, st)) \<Longrightarrow> grows st (snd (get_status_deps ks mtime st))"
proof (induction target st and ks mtime st rule: get_status_get_status_deps.pinduct)
  case (1 target st)
  show ?case
  proof (cases "g_status st target")
    case (Some ts)
    then show ?thesis using 1(1) by (simp add: get_status.psimps grows_refl)
  next
    case None
    define x where "x = st\<lparr>g_status := (g_status st)(target \<mapsto> status_t0)\<rparr>"
    show ?thesis
    proof (cases "files st target")
      case nf: None
      have "grows st x" unfolding x_def by (rule grows_mark)
      moreover have "grows x (snd (obsolete target x))" by (rule grows_obsolete)
      ultimately have "grows st (snd (obsolete target x))" by (rule grows_trans)
      then show ?thesis using 1(1) None nf by (simp add: get_status.psimps x_def)
    next
      case (Some m)
      define xa where "xa = x\<lparr>g_deps := deps_touch target (g_deps x)\<rparr>"
      define r where "r = get_status_deps (sorted_list_of_fset (deps_at (g_deps xa) target)) m xa"
      have fx: "files x target = Some m" using Some by (simp add: x_def)
      have a: "grows st xa" unfolding xa_def x_def using grows_enter [of st target status_t0] by simp
      have b: "grows xa (snd r)" unfolding r_def
        by (rule 1(2) [OF None x_def fx xa_def])
      have c: "grows (snd r) (snd (obsolete target (snd r)))" by (rule grows_obsolete)
      have d: "grows (snd r) (snd (uptodate target m (snd r)))" by (rule grows_uptodate)
      have res: "get_status target st =
          (if fst r then obsolete target (snd r) else uptodate target m (snd r))"
        using 1(1) None Some
        by (simp add: get_status.psimps x_def [symmetric] fx xa_def [symmetric] r_def [symmetric]
              case_prod_beta Let_def)
      show ?thesis
        unfolding res using grows_trans [OF a grows_trans [OF b c]] grows_trans [OF a grows_trans [OF b d]]
        by simp
    qed
  qed
next
  case (2 mtime st)
  then show ?case by (simp add: get_status_deps.psimps grows_refl)
next
  case (3 k ks mtime st)
  obtain ts y where g: "get_status k st = (ts, y)" by (cases "get_status k st")
  have a: "grows st y" using 3(2) g by simp
  show ?case
  proof (cases "status ts \<noteq> Uptodate \<or> mtime < last_modified ts")
    case True
    then show ?thesis using 3(1) g a by (auto simp: get_status_deps.psimps)
  next
    case False
    have "grows y (snd (get_status_deps ks mtime y))"
      by (rule 3(3) [OF refl g [symmetric] False])
    with a have "grows st (snd (get_status_deps ks mtime y))" by (rule grows_trans)
    then show ?thesis using 3(1) g False by (auto simp: get_status_deps.psimps)
  qed
qed


definition get_status_measure :: "string \<times> state + string list \<times> time_t \<times> state \<Rightarrow> nat \<times> nat" where
  "get_status_measure x =
     (case x of
        Inl (target, st) \<Rightarrow>
          (card (insert target (names (g_deps st)) - dom (g_status st)), 0)
      | Inr (ks, mtime, st) \<Rightarrow>
          (card ((set ks \<union> names (g_deps st)) - dom (g_status st)), Suc (length ks)))"

termination get_status
proof (relation "inv_image (less_than <*lex*> less_than) get_status_measure", goal_cases)
  case 1
  show ?case by (intro wf_inv_image wf_lex_prod wf_less_than)
next
  case (2 target st x x2 xa)
  have ne: "target \<notin> dom (g_status st)" using 2 by auto
  have "set (sorted_list_of_fset (deps_at (g_deps xa) target)) \<subseteq> names (g_deps xa)"
    using deps_at_names by simp
  then have eq: "set (sorted_list_of_fset (deps_at (g_deps xa) target)) \<union> names (g_deps xa) = names (g_deps xa)"
    by blast
  have nx: "names (g_deps xa) = insert target (names (g_deps st))"
    using 2 by (simp add: names_deps_touch)
  have dx: "dom (g_status xa) = insert target (dom (g_status st))"
    using 2 by simp
  have "insert target (names (g_deps st)) - insert target (dom (g_status st))
      \<subset> insert target (names (g_deps st)) - dom (g_status st)"
    using ne by blast
  then have lt: "card (insert target (names (g_deps st)) - insert target (dom (g_status st)))
      < card (insert target (names (g_deps st)) - dom (g_status st))"
    by (intro psubset_card_mono) (simp_all add: finite_names)
  have m1: "get_status_measure (Inr (sorted_list_of_fset (deps_at (g_deps xa) target), x2, xa)) =
      (card (insert target (names (g_deps st)) - insert target (dom (g_status st))),
       Suc (length (sorted_list_of_fset (deps_at (g_deps xa) target))))"
    unfolding get_status_measure_def using eq [unfolded nx]
    by (simp only: sum.case prod.case nx dx)
  have m2: "get_status_measure (Inl (target, st)) =
      (card (insert target (names (g_deps st)) - dom (g_status st)), 0)"
    unfolding get_status_measure_def by (simp only: sum.case prod.case)
  show ?case
    unfolding in_inv_image m1 m2 using lt by simp
next
  case (3 k ks mtime st)
  have "insert k (names (g_deps st)) - dom (g_status st)
      \<subseteq> (set (k # ks) \<union> names (g_deps st)) - dom (g_status st)"
    by auto
  then have "card (insert k (names (g_deps st)) - dom (g_status st))
      \<le> card ((set (k # ks) \<union> names (g_deps st)) - dom (g_status st))"
    by (intro card_mono) (simp_all add: finite_names)
  then show ?case
    by (auto simp: get_status_measure_def)
next
  case (4 k ks mtime st x xa y)
  then have "grows st y"
    using get_status_grows_dom(1) [of k st] by (metis snd_conv)
  then have "(set ks \<union> names (g_deps y)) - dom (g_status y)
      \<subseteq> (set (k # ks) \<union> names (g_deps st)) - dom (g_status st)"
    unfolding grows_def by auto
  then have "card ((set ks \<union> names (g_deps y)) - dom (g_status y))
      \<le> card ((set (k # ks) \<union> names (g_deps st)) - dom (g_status st))"
    by (intro card_mono) (simp_all add: finite_names)
  then show ?case
    by (auto simp: get_status_measure_def)
qed


declare get_status.simps [simp del]

text \<open>
  A concrete start: files \<open>a\<close> and \<open>b\<close> exist, \<open>b\<close> is older than \<open>a\<close>, the database
  records that \<open>a\<close> depends on \<open>b\<close>, and nothing has been inspected yet.
\<close>

definition two_files :: state where
  "two_files =
     \<lparr>g_deps = fmupd ''a'' {|''b''|} fmempty, g_status = Map.empty, rules = [],
      job_targets = Map.empty, job_pids = Map.empty, clients = [],
      max_active_jobs = 1, running_jobs = 0, waiting_jobs = 0, job_counter = 0,
      build_failure = False, files = [''a'' \<mapsto> 5, ''b'' \<mapsto> 3],
      contents = [''a'' \<mapsto> ''A'', ''b'' \<mapsto> ''B''], remove_ok = (\<lambda>p. True),
      fork_results = (\<lambda>n. 100 + int n), forks = 0, sent = []\<rparr>"

subsection \<open>\<^verbatim>\<open>complete_job\<close> and \<^verbatim>\<open>run_script\<close>\<close>

text \<open>
  The two loops of \<^verbatim>\<open>complete_job\<close> over the targets of the job. \<^verbatim>\<open>remove\<close> takes the
  file away when it succeeds and leaves everything as it is when it fails (on a directory
  that is not empty, or without the permission to write its directory); the field
  \<open>remove_ok\<close> says which it will be for a path. The program does not look at the result.
\<close>

fun mark_remade :: "string_list \<Rightarrow> state \<Rightarrow> state" where
  "mark_remade [] st = st"
| "mark_remade (j # js) st =
     mark_remade js (st\<lparr>g_status := set_status j Remade (g_status st)\<rparr>)"

fun mark_failed :: "string_list \<Rightarrow> state \<Rightarrow> state" where
  "mark_failed [] st = st"
| "mark_failed (j # js) st =
     mark_failed js
       (st\<lparr>g_status := set_status j Failed (g_status st),
           files := (if remove_ok st j then (files st)(j := None) else files st),
           contents := (if remove_ok st j then (contents st)(j := None) else contents st)\<rparr>)"

definition complete_job :: "int \<Rightarrow> bool \<Rightarrow> state \<Rightarrow> abort + state" where
  "complete_job jid success st =
     (case job_targets st jid of
        None \<Rightarrow> Inl Assert_failed
      | Some tgts \<Rightarrow>
          let st = (if success then mark_remade tgts st else mark_failed tgts st)
          in Inr (st\<lparr>job_targets := (job_targets st)(jid := None)\<rparr>))"

text \<open>
  \<^verbatim>\<open>run_script\<close> in the parent. The result of \<^verbatim>\<open>fork\<close> is the next one the outside
  provides; zero is the child, which never comes back to the scheduler.
\<close>

definition run_script :: "int \<Rightarrow> rule_t \<Rightarrow> state \<Rightarrow> abort + state" where
  "run_script jid rule st =
     (let pid = fork_results st (forks st);
          st = st\<lparr>forks := forks st + 1\<rparr>
      in if pid \<noteq> 0 then
           (if pid = - 1 then complete_job jid False st
            else Inr (st\<lparr>running_jobs := running_jobs st + 1,
                         job_pids := (job_pids st)(pid \<mapsto> jid)\<rparr>))
         else Inl Child_exec)"

text \<open>
  The exit status of a reaped child, as \<^verbatim>\<open>waitpid\<close> reports it, and the test
  \<^verbatim>\<open>WIFEXITED(status) && WEXITSTATUS(status) == 0\<close> of the event loop.
\<close>

datatype wstatus = Exited nat | Signaled nat

fun reaped_success :: "wstatus \<Rightarrow> bool" where
  "reaped_success (Exited code) = (code = 0)"
| "reaped_success (Signaled sig) = False"

subsection \<open>\<^verbatim>\<open>start\<close>, \<^verbatim>\<open>complete_request\<close>, \<^verbatim>\<open>has_free_slots\<close>\<close>

text \<open>The loop of \<^verbatim>\<open>start\<close> over the targets of the rule.\<close>

fun start_targets :: "string_list \<Rightarrow> string_list \<Rightarrow> state \<Rightarrow> state" where
  "start_targets [] ds st = st"
| "start_targets (i # is) ds st =
     start_targets is ds
       (st\<lparr>g_status := set_status i Running (g_status st),
           g_deps := fmupd i (fset_of_list ds) (g_deps st)\<rparr>)"

text \<open>
  \<^verbatim>\<open>start\<close> returns, besides its truth value, the dependency client it has made, if any:
  the caller puts it in front of the current client and goes on with it. The rule kept in
  \<open>delayed\<close> has lost its dependencies to the client's \<open>pending\<close> by the \<^verbatim>\<open>swap\<close>.
\<close>

definition start :: "string \<Rightarrow> state \<Rightarrow> abort + bool \<times> client_t option \<times> state" where
  "start target st =
     (let rule = find_rule (rules st) target in
      if targets rule = [] then
        Inr (False, None, st\<lparr>g_status := set_status target Failed (g_status st)\<rparr>)
      else
        let st = start_targets (targets rule) (deps rule) st in
        if deps rule \<noteq> [] then
          let c = client_t0\<lparr>job_id := job_counter st, pending := deps rule,
                             delayed := Some (rule\<lparr>deps := []\<rparr>)\<rparr>;
              st = st\<lparr>job_targets := (job_targets st)(job_counter st \<mapsto> targets rule)\<rparr>;
              st = st\<lparr>job_counter := job_counter st + 1\<rparr>
          in Inr (True, Some c, st)
        else
          then_do (run_script (job_counter st) rule st) (\<lambda>st.
            let st = st\<lparr>job_targets := (job_targets st)(job_counter st \<mapsto> targets rule)\<rparr>;
                st = st\<lparr>job_counter := job_counter st + 1\<rparr>
            in Inr (True, None, st)))"

definition complete_request :: "client_t \<Rightarrow> bool \<Rightarrow> state \<Rightarrow> abort + state" where
  "complete_request client success st =
     then_do
       (case delayed client of
          Some rule \<Rightarrow>
            if \<not> fd client < 0 then Inl Assert_failed
            else if success then run_script (job_id client) rule st
            else complete_job (job_id client) False st
        | None \<Rightarrow>
            if fd client \<ge> 0 then
              Inr (st\<lparr>sent := sent st @ [(fd client, if success then 1 else 0)],
                      waiting_jobs := waiting_jobs st - 1\<rparr>)
            else Inr st)
       (\<lambda>st. Inr (if job_id client < 0 \<and> \<not> success then st\<lparr>build_failure := True\<rparr> else st))"

definition has_free_slots :: "state \<Rightarrow> bool" where
  "has_free_slots st =
     (if max_active_jobs st \<le> 0 then True
      else running_jobs st - waiting_jobs st < max_active_jobs st)"

subsection \<open>\<^verbatim>\<open>update_clients\<close>\<close>

text \<open>
  The client list under the iterator is kept in three parts: the clients before \<open>i\<close>, the
  client \<open>*i\<close>, and the clients after it, of which the first is \<open>i_next\<close>. Inserting a
  dependency client before \<open>i\<close> and moving \<open>i\<close> to it makes the old \<open>*i\<close> the first of the
  clients after. The field \<^const>\<open>clients\<close> is written back when the function is left.

  The loops need not end (a generic rule can make a new dependency for every target it is
  asked for), so they run on fuel, one unit per iteration. A run that uses its fuel up
  stops where it is and says so; every state a longer run passes through at the head of a
  loop is the result of such a run.
\<close>

datatype outcome = Goto_failed | Return | Done | Fuel_out

datatype 'a run = Finished 'a | Unfinished 'a

fun run_state :: "'a run \<Rightarrow> 'a" where
  "run_state (Finished x) = x"
| "run_state (Unfinished x) = x"

text \<open>
  The first inner loop, over the running targets in the order of the set. The truth value
  is the \<^verbatim>\<open>goto failed\<close>. A failed \<^verbatim>\<open>assert\<close> ends the process.
\<close>

fun harvest :: "string_list \<Rightarrow> client_t \<Rightarrow> state \<Rightarrow> abort + bool \<times> client_t" where
  "harvest [] i st = Inr (False, i)"
| "harvest (j # js) i st =
     (case g_status st j of
        None \<Rightarrow> Inl Assert_failed
      | Some k \<Rightarrow>
          (case status k of
             Uptodate \<Rightarrow> harvest js (i\<lparr>running := running i |-| {|j|}\<rparr>) st
           | Remade \<Rightarrow> harvest js (i\<lparr>running := running i |-| {|j|}\<rparr>) st
           | Running \<Rightarrow> harvest js i st
           | Todo \<Rightarrow> Inl Assert_failed
           | Failed \<Rightarrow> Inr (True, i)))"

text \<open>The second inner loop, \<^verbatim>\<open>while (!i->pending.empty())\<close>.\<close>

fun drain :: "nat \<Rightarrow> client_t \<Rightarrow> client_list \<Rightarrow> state \<Rightarrow>
    abort + outcome \<times> client_t \<times> client_list \<times> state" where
  "drain 0 i post st = Inr (Fuel_out, i, post, st)"
| "drain (Suc n) i post st =
     (case pending i of
        [] \<Rightarrow> Inr (Done, i, post, st)
      | target # rest \<Rightarrow>
          let i = i\<lparr>pending := rest\<rparr>;
              (ts, st) = get_status target st
          in (case status ts of
                Failed \<Rightarrow> Inr (Goto_failed, i, post, st)
              | Running \<Rightarrow> drain n (i\<lparr>running := finsert target (running i)\<rparr>) post st
              | Uptodate \<Rightarrow> drain n i post st
              | Remade \<Rightarrow> drain n i post st
              | Todo \<Rightarrow>
                  then_do (start target st) (\<lambda>(ok, new, st).
                    if \<not> ok then Inr (Goto_failed, i, post, st)
                    else
                      let j = i\<lparr>running := finsert target (running i)\<rparr> in
                      (case new of
                         None \<Rightarrow>
                           if \<not> has_free_slots st then Inr (Return, j, post, st)
                           else drain n j post st
                       | Some c \<Rightarrow>
                           if \<not> has_free_slots st then Inr (Return, c, j # post, st)
                           else drain n c (j # post) st))))"

text \<open>The outer loop over the clients, from \<open>i\<close> on, while there are free slots.\<close>

fun update_loop :: "nat \<Rightarrow> client_list \<Rightarrow> client_list \<Rightarrow> state \<Rightarrow> abort + state run" where
  "update_loop 0 pre cs st = Inr (Unfinished (st\<lparr>clients := pre @ cs\<rparr>))"
| "update_loop (Suc n) pre [] st = Inr (Finished (st\<lparr>clients := pre\<rparr>))"
| "update_loop (Suc n) pre (i # post) st =
     (if \<not> has_free_slots st then Inr (Finished (st\<lparr>clients := pre @ i # post\<rparr>))
      else
        then_do (harvest (sorted_list_of_fset (running i)) i st) (\<lambda>(failed, i).
          if failed then
            then_do (complete_request i False st) (\<lambda>st. update_loop n pre post st)
          else
            then_do (drain n i post st) (\<lambda>(out, i, post, st).
              case out of
                Goto_failed \<Rightarrow>
                  then_do (complete_request i False st) (\<lambda>st. update_loop n pre post st)
              | Return \<Rightarrow> Inr (Finished (st\<lparr>clients := pre @ i # post\<rparr>))
              | Fuel_out \<Rightarrow> Inr (Unfinished (st\<lparr>clients := pre @ i # post\<rparr>))
              | Done \<Rightarrow>
                  if running i = {||} then
                    then_do (complete_request i True st) (\<lambda>st. update_loop n pre post st)
                  else update_loop n (pre @ [i]) post st)))"

definition update_clients :: "nat \<Rightarrow> state \<Rightarrow> abort + state run" where
  "update_clients fuel st = update_loop fuel [] (clients st) st"

subsection \<open>\<^verbatim>\<open>accept_client\<close>\<close>

text \<open>
  What one connection delivers: the descriptor \<^verbatim>\<open>accept4\<close> returns, the job id if the
  first \<^verbatim>\<open>recv\<close> gives four bytes, and the bytes of the target list if the receive loop
  comes to its end.
\<close>

record request =
  rq_fd :: int
  rq_job_id :: "int option"
  rq_targets :: "string option"

text \<open>\<^verbatim>\<open>deps[*i].insert(target)\<close> for every target \<open>i\<close> of the job.\<close>

fun add_dep :: "string_list \<Rightarrow> string \<Rightarrow> state \<Rightarrow> state" where
  "add_dep [] target st = st"
| "add_dep (i # is) target st =
     add_dep is target
       (st\<lparr>g_deps := fmupd i (finsert target (deps_at (g_deps st) i)) (g_deps st)\<rparr>)"

text \<open>
  The parsing loop. \<open>p\<close> is what lies between the pointer and \<open>p_end\<close>; the empty list is
  \<^verbatim>\<open>p == p_end\<close>, which leaves the loop for the error exit: the client is dropped, the
  dependencies recorded so far stay.
\<close>

function parse_targets :: "string \<Rightarrow> string_list \<Rightarrow> client_t \<Rightarrow> state \<Rightarrow> state" where
  "parse_targets p l proc st =
     (if p = [] then st
      else
        let len = length (takeWhile (\<lambda>c. c \<noteq> nul) p) in
        if len = 0 then
          st\<lparr>clients := proc # clients st, waiting_jobs := waiting_jobs st + 1\<rparr>
        else
          let target = take len p;
              proc = proc\<lparr>pending := pending proc @ [target]\<rparr>;
              st = add_dep l target st
          in parse_targets (drop (len + 1) p) l proc st)"
  by pat_completeness auto
termination
  by (relation "measure (\<lambda>(p, l, proc, st). length p)") auto

declare parse_targets.simps [simp del]

definition accept_client :: "request \<Rightarrow> state \<Rightarrow> state" where
  "accept_client rq st =
     (if rq_fd rq < 0 then st
      else
        case rq_job_id rq of
          None \<Rightarrow> st
        | Some jid \<Rightarrow>
            let proc = client_t0\<lparr>job_id := jid, fd := rq_fd rq\<rparr> in
            (case job_targets st jid of
               None \<Rightarrow> st
             | Some l \<Rightarrow>
                 (case rq_targets rq of
                    None \<Rightarrow> st
                  | Some data \<Rightarrow> parse_targets (data @ [nul]) l proc st)))"

subsection \<open>\<^verbatim>\<open>server_loop\<close>\<close>

text \<open>
  What the program finds when \<^verbatim>\<open>pselect\<close> returns: the files as the scripts have left
  them (times, bytes, and whether they can be removed), a connection if the socket is readable, and, if \<^verbatim>\<open>SIGCHLD\<close> has arrived, the
  children that \<^verbatim>\<open>waitpid\<close> then hands over, in order.
\<close>

record event =
  ev_files :: "string \<rightharpoonup> time_t"
  ev_contents :: "string \<rightharpoonup> string"
  ev_remove_ok :: "string \<Rightarrow> bool"
  ev_request :: "request option"
  ev_reaped :: "(int \<times> wstatus) list option"

fun reap :: "(int \<times> wstatus) list \<Rightarrow> state \<Rightarrow> abort + state" where
  "reap [] st = Inr st"
| "reap ((pid, ws) # rest) st =
     (let res = reaped_success ws in
      case job_pids st pid of
        None \<Rightarrow> Inl Assert_failed
      | Some jid \<Rightarrow>
          let st = st\<lparr>job_pids := (job_pids st)(pid := None)\<rparr>;
              st = st\<lparr>running_jobs := running_jobs st - 1\<rparr>
          in case complete_job jid res st of
               Inl e \<Rightarrow> Inl e
             | Inr st \<Rightarrow> reap rest st)"

definition handle_event :: "event \<Rightarrow> state \<Rightarrow> abort + state" where
  "handle_event ev st =
     (let st = st\<lparr>files := ev_files ev, contents := ev_contents ev,
                   remove_ok := ev_remove_ok ev\<rparr>;
          st = (case ev_request ev of None \<Rightarrow> st | Some rq \<Rightarrow> accept_client rq st)
      in case ev_reaped ev of
           None \<Rightarrow> Inr st
         | Some l \<Rightarrow> reap l st)"

text \<open>
  The loop, over the events the outside provides. When they are used up and jobs still
  run, the program is blocked in \<^verbatim>\<open>pselect\<close>: the run is unfinished.
\<close>

fun server_loop :: "nat \<Rightarrow> event list \<Rightarrow> state \<Rightarrow> abort + (state \<times> event list) run" where
  "server_loop fuel evs st =
     (case update_clients fuel st of
        Inl e \<Rightarrow> Inl e
      | Inr (Unfinished st) \<Rightarrow> Inr (Unfinished (st, evs))
      | Inr (Finished st) \<Rightarrow>
          if running_jobs st = 0 then
            (if clients st = [] then Inr (Finished (st, evs)) else Inl Assert_failed)
          else
            (case evs of
               [] \<Rightarrow> Inr (Unfinished (st, []))
             | ev # evs' \<Rightarrow>
                 (case handle_event ev st of
                    Inl e \<Rightarrow> Inl e
                  | Inr st \<Rightarrow> server_loop fuel evs' st)))"

declare server_loop.simps [simp del]

definition two_rules :: state where
  "two_rules =
     \<lparr>g_deps = fmempty, g_status = Map.empty,
      rules = [\<lparr>generic = False, targets = [''c''], deps = [], script = ''remake d; touch c''\<rparr>,
               \<lparr>generic = False, targets = [''d''], deps = [], script = ''touch d''\<rparr>],
      job_targets = Map.empty, job_pids = Map.empty,
      clients = [client_t0\<lparr>pending := [''c'']\<rparr>],
      max_active_jobs = 1, running_jobs = 0, waiting_jobs = 0, job_counter = 0,
      build_failure = False, files = Map.empty, contents = Map.empty,
      remove_ok = (\<lambda>p. True),
      fork_results = (\<lambda>n. 100 + int n), forks = 0, sent = []\<rparr>"

definition two_rules_events :: "event list" where
  "two_rules_events =
     [\<lparr>ev_files = Map.empty, ev_contents = Map.empty, ev_remove_ok = (\<lambda>p. True),
       ev_request = Some \<lparr>rq_fd = 7, rq_job_id = Some 0, rq_targets = Some [CHR ''d'', nul, nul]\<rparr>,
       ev_reaped = None\<rparr>,
      \<lparr>ev_files = [''d'' \<mapsto> 8], ev_contents = [''d'' \<mapsto> []], ev_remove_ok = (\<lambda>p. True),
       ev_request = None,
       ev_reaped = Some [(101, Exited 0)]\<rparr>,
      \<lparr>ev_files = [''d'' \<mapsto> 8, ''c'' \<mapsto> 9], ev_contents = [''d'' \<mapsto> [], ''c'' \<mapsto> []],
       ev_remove_ok = (\<lambda>p. True), ev_request = None, ev_reaped = Some [(100, Exited 0)]\<rparr>]"

subsection \<open>How much of a stream the readers consume\<close>

definition remaining :: "istream \<Rightarrow> nat" where
  "remaining ins = length (content ins)"

lemma get_remaining: "get ins = (c, ins') \<Longrightarrow> remaining ins' \<le> remaining ins"
  by (auto simp: get_def remaining_def split: if_splits list.splits)

lemma get_good:
  "get ins = (c, ins') \<Longrightarrow> good ins' \<Longrightarrow>
   good ins \<and> content ins = to_char c # content ins' \<and> Suc (remaining ins') = remaining ins \<and>
   ins' = ins\<lparr>content := content ins'\<rparr>"
  by (auto simp: get_def remaining_def good_def to_char_of_char split: if_splits list.splits)

lemma get_not_good:
  "get ins = (c, ins') \<Longrightarrow> \<not> good ins' \<Longrightarrow> c = - 1"
  by (auto simp: get_def good_def split: if_splits list.splits)

lemma get_putback:
  "get ins = (c, ins') \<Longrightarrow> good ins' \<Longrightarrow> putback (to_char c) ins' = ins"
  by (auto simp: get_def putback_def good_def to_char_of_char split: if_splits list.splits)

lemma putback_remaining_bad: "\<not> good ins \<Longrightarrow> remaining (putback c ins) = remaining ins \<and> \<not> good (putback c ins)"
  by (simp add: putback_def remaining_def good_def)

lemma skip_spaces_remaining: "remaining (skip_spaces ins) \<le> remaining ins"
proof (induction ins rule: skip_spaces.induct)
  case (1 ins)
  obtain c ins' where g: "get ins = (c, ins')" by (cases "get ins")
  show ?case
  proof (cases "to_char c = CHR '' ''")
    case True
    from 1 [OF g [symmetric] refl True] get_remaining [OF g] show ?thesis
      by (subst skip_spaces.simps) (simp add: g True)
  next
    case False
    show ?thesis
    proof (cases "good ins'")
      case True
      with g False show ?thesis
        by (subst skip_spaces.simps) (simp add: get_putback)
    next
      case ng: False
      with g False get_remaining [OF g] show ?thesis
        by (subst skip_spaces.simps) simp
    qed
  qed
qed

lemma skip_eol_remaining: "remaining (skip_eol ins) \<le> remaining ins"
proof (induction ins rule: skip_eol.induct)
  case (1 ins)
  obtain c ins' where g: "get ins = (c, ins')" by (cases "get ins")
  show ?case
  proof (cases "strchr [cr, lf] (to_char c)")
    case True
    from 1 [OF g [symmetric] refl True] get_remaining [OF g] show ?thesis
      by (subst skip_eol.simps) (simp add: g True)
  next
    case False
    show ?thesis
    proof (cases "good ins'")
      case True
      with g False show ?thesis
        by (subst skip_eol.simps) (simp add: get_putback)
    next
      case ng: False
      with g False get_remaining [OF g] show ?thesis
        by (subst skip_eol.simps) simp
    qed
  qed
qed

lemma read_word_loop_remaining:
  "remaining (snd (read_word_loop quoted ins res)) \<le> remaining ins"
proof (induction quoted ins res rule: read_word_loop.induct)
  case (1 quoted ins res)
  obtain c ins1 where g: "get ins = (c, ins1)" by (cases "get ins")
  note r1 = get_remaining [OF g]
  show ?case
  proof (cases "good ins1")
    case False
    with g r1 show ?thesis by (subst read_word_loop.simps) simp
  next
    case True
    show ?thesis
    proof (cases quoted)
      case q: True
      show ?thesis
      proof (cases "to_char c = backslash")
        case b: True
        obtain c2 ins2 where g2: "get ins1 = (c2, ins2)" by (cases "get ins1")
        from 1(1) [OF g [symmetric] refl _ q b g2 [symmetric] refl] True
          get_remaining [OF g2] r1
        show ?thesis by (subst read_word_loop.simps) (simp add: g g2 True q b)
      next
        case nb: False
        show ?thesis
        proof (cases "to_char c = dquote")
          case True
          with g r1 \<open>good ins1\<close> q nb show ?thesis by (subst read_word_loop.simps) simp
        next
          case nd: False
          from 1(2) [OF g [symmetric] refl _ q nb nd] True r1
          show ?thesis by (subst read_word_loop.simps) (simp add: g True q nb nd)
        qed
      qed
    next
      case nq: False
      show ?thesis
      proof (cases "strchr word_delims (to_char c)")
        case d: True
        with g True nq show ?thesis
          by (subst read_word_loop.simps) (simp add: get_putback)
      next
        case nd: False
        from 1(3) [OF g [symmetric] refl _ nq nd] True r1
        show ?thesis by (subst read_word_loop.simps) (simp add: g True nq nd)
      qed
    qed
  qed
qed

lemma read_word_remaining: "remaining (snd (read_word ins)) \<le> remaining ins"
proof -
  obtain c ins1 where g: "get ins = (c, ins1)" by (cases "get ins")
  show ?thesis
    using get_remaining [OF g] read_word_loop_remaining [of _ ins1] g
    by (cases "good ins1") (auto simp: read_word_def Let_def get_putback intro: order_trans)
qed

lemma read_word_consumes:
  "fst (read_word ins) \<noteq> [] \<Longrightarrow> remaining (snd (read_word ins)) < remaining ins"
proof -
  assume ne: "fst (read_word ins) \<noteq> []"
  obtain c ins1 where g: "get ins = (c, ins1)" by (cases "get ins")
  from ne g have gd: "good ins1" and nd: "\<not> strchr word_delims (to_char c)"
    by (auto simp: read_word_def Let_def split: if_splits)
  from get_good [OF g gd] have lt: "remaining ins1 < remaining ins" by simp
  have "snd (read_word ins) = snd (read_word_loop (to_char c = dquote) ins1
           (if to_char c \<noteq> dquote then [to_char c] else []))"
    using g gd nd by (simp add: read_word_def Let_def)
  moreover have "remaining (snd (read_word_loop (to_char c = dquote) ins1
           (if to_char c \<noteq> dquote then [to_char c] else []))) \<le> remaining ins1"
    by (rule read_word_loop_remaining)
  ultimately show ?thesis using lt by (simp only:)
qed

lemma read_word_bad: "\<not> good ins \<Longrightarrow> fst (read_word ins) = []"
  by (auto simp: read_word_def get_def good_def Let_def)

subsection \<open>\<^verbatim>\<open>load_dependencies\<close> and \<^verbatim>\<open>save_dependencies\<close>\<close>

text \<open>The inner loop: the dependencies of one record, up to the first empty word.\<close>

function load_deps_line :: "string \<Rightarrow> istream \<Rightarrow> dependency_map \<Rightarrow> istream \<times> dependency_map" where
  "load_deps_line target ins m =
     (let (dep, ins) = read_word ins in
      if dep = [] then (ins, m)
      else
        let m = fmupd target (finsert dep (deps_at m target)) m;
            ins = skip_spaces ins
        in load_deps_line target ins m)"
  by pat_completeness auto
termination
proof (relation "measure (\<lambda>(target, ins, m). remaining ins)", goal_cases)
  case 1
  show ?case by simp
next
  case (2 target ins m x dep ins1 xc xd)
  then have "fst (read_word ins) \<noteq> []" "ins1 = snd (read_word ins)"
    by (metis fst_conv, metis snd_conv)
  with read_word_consumes [of ins] skip_spaces_remaining [of ins1] 2 show ?case by simp
qed

lemma load_deps_line_remaining:
  "remaining (fst (load_deps_line target ins m)) \<le> remaining ins"
proof (induction target ins m rule: load_deps_line.induct)
  case (1 target ins m)
  obtain dep ins1 where r: "read_word ins = (dep, ins1)" by (cases "read_word ins")
  have r1: "remaining ins1 \<le> remaining ins" using read_word_remaining [of ins] r by simp
  show ?case
  proof (cases "dep = []")
    case True
    with r r1 show ?thesis by (subst load_deps_line.simps) simp
  next
    case False
    from 1 [OF r [symmetric] refl False refl refl] skip_spaces_remaining [of ins1] r1
    show ?thesis by (subst load_deps_line.simps) (simp add: r False Let_def)
  qed
qed

text \<open>The outer loop, \<^verbatim>\<open>while (!in.eof())\<close>.\<close>

function load_deps_loop :: "istream \<Rightarrow> dependency_map \<Rightarrow> abort + dependency_map" where
  "load_deps_loop ins m =
     (if eofbit ins then Inr m
      else
        let (target, ins) = read_word ins in
        if target = [] then Inr m
        else
          let (c, ins) = get ins in
          if c \<noteq> of_char CHR '':'' then Inl Error_exit
          else
            let ins = skip_spaces ins;
                (ins, m) = load_deps_line target ins m;
                ins = skip_eol ins
            in load_deps_loop ins m)"
  by pat_completeness auto
termination
proof (relation "measure (\<lambda>(ins, m). remaining ins)", goal_cases)
  case 1
  show ?case by simp
next
  case (2 ins m x target ins1 x2 c ins2 ins3 x3 ins4 m4 ins5)
  have a: "fst (read_word ins) \<noteq> []" "ins1 = snd (read_word ins)"
    using 2 by (metis fst_conv, metis snd_conv)
  have b: "remaining ins2 \<le> remaining ins1"
    using 2 get_remaining [of ins1 c ins2] by (metis prod.collapse fst_conv snd_conv)
  have c: "remaining ins3 \<le> remaining ins2" using 2 skip_spaces_remaining by simp
  have d: "remaining ins4 \<le> remaining ins3"
    using 2 load_deps_line_remaining [of target ins3 m] by (metis fst_conv)
  have e: "remaining ins5 \<le> remaining ins4" using 2 skip_eol_remaining by simp
  from read_word_consumes [OF a(1)] a(2) b c d e show ?case by simp
qed

declare load_deps_line.simps [simp del] load_deps_loop.simps [simp del]

definition load_dependencies :: "state \<Rightarrow> abort + state" where
  "load_dependencies st =
     (case contents st ''.remake'' of
        None \<Rightarrow> Inr st
      | Some bytes \<Rightarrow>
          (case load_deps_loop (open_stream bytes) (g_deps st) of
             Inl e \<Rightarrow> Inl e
           | Inr m \<Rightarrow> Inr (st\<lparr>g_deps := m\<rparr>)))"

text \<open>One record of the database; a target without dependencies has none.\<close>

fun save_deps :: "string_list \<Rightarrow> string" where
  "save_deps [] = []"
| "save_deps (j # js) = escape_string j @ '' '' @ save_deps js"

fun save_records :: "string_list \<Rightarrow> dependency_map \<Rightarrow> string" where
  "save_records [] m = []"
| "save_records (i # is) m =
     (if deps_at m i = {||} then save_records is m
      else escape_string i @ '': '' @ save_deps (sorted_list_of_fset (deps_at m i)) @ [lf]
           @ save_records is m)"

definition save_dependencies :: "state \<Rightarrow> state" where
  "save_dependencies st =
     st\<lparr>contents := (contents st)(''.remake'' \<mapsto>
          save_records (sorted_list_of_fset (fmdom (g_deps st))) (g_deps st))\<rparr>"

subsection \<open>\<^verbatim>\<open>load_rules\<close>\<close>

datatype load_state_e = Bof | Tgt | Dep | Script

text \<open>
  \<^verbatim>\<open>in.get(*buf.rdbuf())\<close>: the bytes up to the next line feed, which stays in the stream.
  Reaching the end of the input sets \<^verbatim>\<open>eofbit\<close>; moving no byte at all sets \<^verbatim>\<open>failbit\<close>.
\<close>

definition get_line :: "istream \<Rightarrow> string \<times> istream" where
  "get_line ins =
     (if \<not> good ins then ([], ins\<lparr>failbit := True\<rparr>)
      else
        let l = takeWhile (\<lambda>c. c \<noteq> lf) (content ins);
            rest = dropWhile (\<lambda>c. c \<noteq> lf) (content ins);
            ins = ins\<lparr>content := rest, eofbit := (rest = [])\<rparr>
        in (l, if l = [] then ins\<lparr>failbit := True\<rparr> else ins))"

lemma get_line_remaining: "remaining (snd (get_line ins)) \<le> remaining ins"
  by (simp add: get_line_def remaining_def Let_def length_dropWhile_le)

lemma get_char:
  "get ins = (c, y) \<Longrightarrow> 0 \<le> c \<Longrightarrow> remaining y < remaining ins"
  by (auto simp: get_def remaining_def split: if_splits list.splits)

lemma word_step:
  assumes "get ins = (c, y)" and "fst (read_word (putback (to_char c) y)) \<noteq> []"
  shows "remaining (skip_spaces (snd (read_word (putback (to_char c) y)))) < remaining ins"
proof (cases "good y")
  case True
  with assms have p: "putback (to_char c) y = ins" by (simp add: get_putback)
  from assms(2) [unfolded p] have "remaining (snd (read_word ins)) < remaining ins"
    by (rule read_word_consumes)
  with skip_spaces_remaining [of "snd (read_word ins)"] show ?thesis
    unfolding p by simp
next
  case False
  then have "\<not> good (putback (to_char c) y)" by (simp add: putback_remaining_bad)
  then have "fst (read_word (putback (to_char c) y)) = []" by (rule read_word_bad)
  with assms(2) show ?thesis by simp
qed

text \<open>After the loop: the rule being read, if any, is the last rule.\<close>

definition load_rules_end :: "rule_t \<Rightarrow> string \<Rightarrow> load_state_e \<Rightarrow> state \<Rightarrow> state" where
  "load_rules_end current buf lstate st =
     (if lstate \<noteq> Bof then st\<lparr>rules := rules st @ [current\<lparr>script := buf\<rparr>]\<rparr> else st)"

text \<open>
  The checks on a word with or without \<^verbatim>\<open>%\<close>; \<open>None\<close> is the \<^verbatim>\<open>goto error\<close>. The state is
  the one the loop was in when it met the word.
\<close>

definition check_generic :: "string \<Rightarrow> load_state_e \<Rightarrow> rule_t \<Rightarrow> rule_t option" where
  "check_generic file lstate current =
     (if find_char CHR ''%'' file \<noteq> None then
        (if (lstate = Tgt \<or> lstate = Dep) \<and> \<not> generic current then None
         else Some (current\<lparr>generic := True\<rparr>))
      else if lstate = Tgt \<and> generic current then None
      else Some current)"

function load_rules_loop ::
  "istream \<Rightarrow> rule_t \<Rightarrow> string \<Rightarrow> load_state_e \<Rightarrow> state \<Rightarrow> abort + state" where
  "load_rules_loop ins current buf lstate st =
     (if eofbit ins then Inr (load_rules_end current buf lstate st)
      else
        let (c, ins) = get ins in
        if eofbit ins then Inr (load_rules_end current buf lstate st)
        else if lstate = Script \<and> c = of_char tab then
          (let (l, ins) = get_line ins in load_rules_loop ins current (buf @ l) lstate st)
        else if lstate = Script \<and> (c = of_char cr \<or> c = of_char lf) then
          load_rules_loop ins current (buf @ [to_char c]) lstate st
        else if lstate = Dep \<and> c = of_char lf then
          load_rules_loop ins current buf Script st
        else if lstate = Tgt \<and> c = of_char CHR '':'' then
          load_rules_loop (skip_spaces ins) current buf Dep st
        else
          let (current, buf, st) =
                (if lstate = Script
                 then (rule_t0, [], st\<lparr>rules := rules st @ [current\<lparr>script := buf\<rparr>]\<rparr>)
                 else (current, buf, st));
              ins = putback (to_char c) ins;
              (file, ins) = read_word ins;
              ins = skip_spaces ins
          in if file = [] then Inl Error_exit
             else
               (case check_generic file lstate current of
                  None \<Rightarrow> Inl Error_exit
                | Some current \<Rightarrow>
                    if lstate \<noteq> Dep then
                      load_rules_loop ins (current\<lparr>targets := targets current @ [file]\<rparr>) buf Tgt st
                    else
                      let current = current\<lparr>deps := deps current @ [file]\<rparr> in
                      if generic current then load_rules_loop ins current buf lstate st
                      else load_rules_loop ins current buf lstate
                             (add_dep (targets current) file st)))"
  by pat_completeness auto
termination
proof (relation "measure (\<lambda>(ins, current, buf, lstate, st). remaining ins)", goal_cases)
  case 1
  show ?case by simp
next
  case (2 ins current buf lstate st x xa y xb xc ya)
  then have g: "get ins = (xa, y)" and p: "0 \<le> xa" by simp_all
  have "remaining ya \<le> remaining y"
    using 2 get_line_remaining [of y] by (metis snd_conv)
  with get_char [OF g p] show ?case by simp
next
  case (3 ins current buf lstate st x xa y)
  then have g: "get ins = (xa, y)" and p: "0 \<le> xa" by auto
  from get_char [OF g p] show ?case by simp
next
  case (4 ins current buf lstate st x xa y)
  then have g: "get ins = (xa, y)" and p: "0 \<le> xa" by auto
  from get_char [OF g p] show ?case by simp
next
  case (5 ins current buf lstate st x xa y)
  then have g: "get ins = (xa, y)" and p: "0 \<le> xa" by auto
  from get_char [OF g p] skip_spaces_remaining [of y] show ?case by simp
next
  case (6 ins current buf lstate st x xa y xb xc ya xd yb xe xf xg yc xh)
  then have g: "get ins = (xa, y)" by simp
  have w: "xg = fst (read_word (putback (to_char xa) y))" "yc = snd (read_word (putback (to_char xa) y))"
    using 6 by (metis fst_conv, metis snd_conv)
  from word_step [OF g] 6 w show ?case by simp
next
  case (7 ins current buf lstate st x xa y xb xc ya xd yb xe xf xg yc xh)
  then have g: "get ins = (xa, y)" by simp
  have w: "xg = fst (read_word (putback (to_char xa) y))" "yc = snd (read_word (putback (to_char xa) y))"
    using 7 by (metis fst_conv, metis snd_conv)
  from word_step [OF g] 7 w show ?case by simp
next
  case (8 ins current buf lstate st x xa y xb xc ya xd yb xe xf xg yc xh)
  then have g: "get ins = (xa, y)" by simp
  have w: "xg = fst (read_word (putback (to_char xa) y))" "yc = snd (read_word (putback (to_char xa) y))"
    using 8 by (metis fst_conv, metis snd_conv)
  from word_step [OF g] 8 w show ?case by simp
qed

declare load_rules_loop.simps [simp del]

definition load_rules :: "state \<Rightarrow> abort + state" where
  "load_rules st =
     (case contents st ''Remakefile'' of
        None \<Rightarrow> Inl Error_exit
      | Some bytes \<Rightarrow> load_rules_loop (open_stream bytes) rule_t0 [] Bof st)"





subsection \<open>\<^verbatim>\<open>create_server\<close>\<close>

text \<open>
  What the system calls of \<^verbatim>\<open>create_server\<close> return: the integer results, and the name
  \<^verbatim>\<open>tempnam\<close> gives, if any.
\<close>

record sys_t =
  sigprocmask_r :: int
  sigaction_r :: int
  tempnam_r :: "string option"
  setenv_r :: int
  socket_r :: int
  bind_r :: int
  listen_r :: int

text \<open>\<^verbatim>\<open>sizeof(socket_addr.sun_path)\<close>.\<close>

definition sun_path_size :: nat where
  "sun_path_size = 108"

text \<open>Both labels, \<^verbatim>\<open>error\<close> and \<^verbatim>\<open>error2\<close>, end in \<^verbatim>\<open>exit(1)\<close>.\<close>

definition create_server :: "sys_t \<Rightarrow> abort + unit" where
  "create_server sys =
     (if sigprocmask_r sys = - 1 then Inl Error_exit
      else if sigaction_r sys = - 1 then Inl Error_exit
      else case tempnam_r sys of
        None \<Rightarrow> Inl Error_exit
      | Some socket_name \<Rightarrow>
          if length socket_name \<ge> sun_path_size - 1 then Inl Error_exit
          else if setenv_r sys \<noteq> 0 then Inl Error_exit
          else if socket_r sys < 0 then Inl Error_exit
          else if bind_r sys \<noteq> 0 then Inl Error_exit
          else if listen_r sys \<noteq> 0 then Inl Error_exit
          else Inr ())"

subsection \<open>\<^verbatim>\<open>server_mode\<close>\<close>

text \<open>
  From the label \<^verbatim>\<open>early_exit\<close> on: the socket is closed and its file removed (neither is
  part of the state), the dependencies are saved, and the process exits. The state is
  returned with the exit, for the file it has written.
\<close>

definition early_exit :: "state \<Rightarrow> abort \<times> state" where
  "early_exit st =
     (let st = save_dependencies st
      in (Exit (if build_failure st then 1 else 0), st))"

text \<open>A pseudo-client for the given targets, at the back of the list, and the loop.\<close>

definition seed_loop ::
  "nat \<Rightarrow> event list \<Rightarrow> string_list \<Rightarrow> state \<Rightarrow> abort + (state \<times> event list) run" where
  "seed_loop fuel evs tgts st =
     server_loop fuel evs (st\<lparr>clients := clients st @ [client_t0\<lparr>pending := tgts\<rparr>]\<rparr>)"

text \<open>
  The function up to the label \<^verbatim>\<open>early_exit\<close>: \<open>Finished\<close> is the state in which the label
  is reached, \<open>Unfinished\<close> a run that is still in one of its two loops.
\<close>

definition server_run ::
  "nat \<Rightarrow> event list \<Rightarrow> sys_t \<Rightarrow> string_list \<Rightarrow> state \<Rightarrow> abort + state run" where
  "server_run fuel evs sys tgts st =
     then_do (load_dependencies st) (\<lambda>st.
     then_do (load_rules st) (\<lambda>st.
     then_do (create_server sys) (\<lambda>_.
       let (ts, st) = get_status ''Remakefile'' st;
           second = (\<lambda>evs st.
             case seed_loop fuel evs tgts st of
               Inl e \<Rightarrow> Inl e
             | Inr (Unfinished (st, evs)) \<Rightarrow> Inr (Unfinished st)
             | Inr (Finished (st, evs)) \<Rightarrow> Inr (Finished st))
       in if status ts = Todo then
            (case seed_loop fuel evs [''Remakefile''] st of
               Inl e \<Rightarrow> Inl e
             | Inr (Unfinished (st, evs)) \<Rightarrow> Inr (Unfinished st)
             | Inr (Finished (st, evs)) \<Rightarrow>
                 if build_failure st then Inr (Finished st)
                 else then_do (load_rules (st\<lparr>rules := []\<rparr>)) (second evs))
          else second evs st)))"

text \<open>
  The whole function. It never returns: \<open>Inl\<close> is the way the process has ended, \<open>Inr\<close> the
  state of a run that is still in one of its two loops.
\<close>

definition server_mode ::
  "nat \<Rightarrow> event list \<Rightarrow> sys_t \<Rightarrow> string_list \<Rightarrow> state \<Rightarrow> abort + state" where
  "server_mode fuel evs sys tgts st =
     (case server_run fuel evs sys tgts st of
        Inl e \<Rightarrow> Inl e
      | Inr (Unfinished st) \<Rightarrow> Inr st
      | Inr (Finished st) \<Rightarrow> Inl (fst (early_exit st)))"

definition sys_ok :: sys_t where
  "sys_ok = \<lparr>sigprocmask_r = 0, sigaction_r = 0, tempnam_r = Some ''/tmp/rmk-0'',
             setenv_r = 0, socket_r = 3, bind_r = 0, listen_r = 0\<rparr>"

subsection \<open>\<^verbatim>\<open>client_mode\<close>\<close>

text \<open>
  The system calls of the client, in the order it makes them, with what it passes: the
  name it connects to, the job id, the bytes of a target with the closing nul.
\<close>

datatype syscall = Socket | Connect string | Send_job_id int | Send string | Recv

text \<open>
  What the calls return: \<^verbatim>\<open>socket\<close>, \<^verbatim>\<open>connect\<close>, the \<open>k\<close>-th \<^verbatim>\<open>send\<close>, and \<^verbatim>\<open>recv\<close> with the
  byte it stores.
\<close>

record client_sys_t =
  c_socket_r :: int
  c_connect_r :: int
  c_send_r :: "nat \<Rightarrow> int"
  c_recv_r :: "int \<times> char"

text \<open>
  \<^verbatim>\<open>atoi\<close> as the GNU C library has it: \<^verbatim>\<open>(int) strtol(nptr, NULL, 10)\<close>. \<^verbatim>\<open>strtol\<close> skips
  white space, takes a sign and the digits that follow, and stops at \<^verbatim>\<open>LONG_MIN\<close> and
  \<^verbatim>\<open>LONG_MAX\<close> (64 bits) when the number is beyond them; the conversion to \<^verbatim>\<open>int\<close> keeps the
  low 32 bits.
\<close>

definition isspace :: "char \<Rightarrow> bool" where
  "isspace c \<longleftrightarrow> c \<in> set [CHR '' '', tab, lf, char_of (11::nat), char_of (12::nat), cr]"

definition isdigit :: "char \<Rightarrow> bool" where
  "isdigit c \<longleftrightarrow> CHR ''0'' \<le> c \<and> c \<le> CHR ''9''"

fun atoi_digits :: "string \<Rightarrow> int \<Rightarrow> int" where
  "atoi_digits [] n = n"
| "atoi_digits (c # cs) n =
     (if isdigit c then atoi_digits cs (10 * n + (of_char c - of_char CHR ''0'')) else n)"

definition strtol :: "string \<Rightarrow> int" where
  "strtol s =
     (let n = (case dropWhile isspace s of
                 [] \<Rightarrow> 0
               | c # cs \<Rightarrow>
                   if c = CHR ''-'' then - atoi_digits cs 0
                   else if c = CHR ''+'' then atoi_digits cs 0
                   else atoi_digits (c # cs) 0)
      in max (- (2 ^ 63)) (min (2 ^ 63 - 1) n))"

definition to_int :: "int \<Rightarrow> int" where
  "to_int n = (n + 2 ^ 31) mod 2 ^ 32 - 2 ^ 31"

definition atoi :: "string \<Rightarrow> int" where
  "atoi s = to_int (strtol s)"

text \<open>
  The loop over the targets; \<open>k\<close> counts the calls of \<^verbatim>\<open>send\<close>. The truth value is
  false for the \<^verbatim>\<open>goto error\<close>.
\<close>

fun send_targets :: "client_sys_t \<Rightarrow> nat \<Rightarrow> string_list \<Rightarrow> syscall list \<Rightarrow> bool \<times> nat \<times> syscall list" where
  "send_targets cs k [] tr = (True, k, tr)"
| "send_targets cs k (t # ts) tr =
     (if c_send_r cs k \<noteq> int (length t + 1) then (False, Suc k, tr @ [Send (t @ [nul])])
      else send_targets cs (Suc k) ts (tr @ [Send (t @ [nul])]))"

text \<open>The exit of the client and the calls it has made.\<close>

definition client_mode ::
  "client_sys_t \<Rightarrow> (string \<rightharpoonup> string) \<Rightarrow> string \<Rightarrow> string_list \<Rightarrow> abort \<times> syscall list" where
  "client_mode cs getenv socket_name tgts =
     (if tgts = [] then (Exit 0, [])
      else if length socket_name \<ge> sun_path_size - 1 then (Exit 1, [])
      else if c_socket_r cs < 0 then (Error_exit, [Socket])
      else if c_connect_r cs \<noteq> 0 then (Error_exit, [Socket, Connect socket_name])
      else
        let job_id = (case getenv ''REMAKE_JOB_ID'' of None \<Rightarrow> - 1 | Some v \<Rightarrow> atoi v);
            tr = [Socket, Connect socket_name, Send_job_id job_id]
        in if c_send_r cs 0 \<noteq> 4 then (Error_exit, tr)
           else
             let (ok, k, tr) = send_targets cs 1 tgts tr
             in if \<not> ok then (Error_exit, tr)
                else if c_send_r cs k \<noteq> 1 then (Error_exit, tr @ [Send [nul]])
                else if fst (c_recv_r cs) \<noteq> 1 then (Exit 1, tr @ [Send [nul], Recv])
                else (Exit (if snd (c_recv_r cs) \<noteq> nul then 0 else 1), tr @ [Send [nul], Recv]))"

subsection \<open>\<^verbatim>\<open>main\<close>\<close>

text \<open>
  The loop over the arguments after the name of the program: the debug flag, the number
  of jobs and the targets so far. \<^verbatim>\<open>usage\<close> ends the process at once.
\<close>

fun parse_args :: "string_list \<Rightarrow> bool \<times> int \<times> string_list \<Rightarrow> abort + bool \<times> int \<times> string_list" where
  "parse_args [] r = Inr r"
| "parse_args (arg # args) (dbg, jobs, tgts) =
     (if arg = [] then Inl (Exit 1)
      else if arg = ''-h'' \<or> arg = ''--help'' then Inl (Exit 0)
      else if arg = ''-d'' then parse_args args (True, jobs, tgts)
      else if take 2 arg = ''-j'' then parse_args args (dbg, atoi (drop 2 arg), tgts)
      else if take 7 arg = ''--jobs='' then parse_args args (dbg, atoi (drop 7 arg), tgts)
      else if hd arg = CHR ''-'' then Inl (Exit 1)
      else parse_args args (dbg, jobs, tgts @ [arg]))"

text \<open>
  The process: its arguments and environment, what the system calls will return, and the
  state with the initial values of the globals and the files of the directory. The result
  is that of \<^const>\<open>server_mode\<close>, with the calls of the client, if it is one.
\<close>

definition main ::
  "string_list \<Rightarrow> (string \<rightharpoonup> string) \<Rightarrow> client_sys_t \<Rightarrow> sys_t \<Rightarrow> nat \<Rightarrow> event list \<Rightarrow> state \<Rightarrow>
   (abort + state) \<times> syscall list" where
  "main args getenv cs sys fuel evs st =
     (case parse_args args (False, max_active_jobs st, []) of
        Inl e \<Rightarrow> (Inl e, [])
      | Inr (dbg, jobs, tgts) \<Rightarrow>
          (case getenv ''REMAKE_SOCKET'' of
             Some sn \<Rightarrow> (let (e, tr) = client_mode cs getenv sn tgts in (Inl e, tr))
           | None \<Rightarrow> (server_mode fuel evs sys tgts (st\<lparr>max_active_jobs := jobs\<rparr>), [])))"

definition client_ok :: client_sys_t where
  "client_ok = \<lparr>c_socket_r = 3, c_connect_r = 0,
                c_send_r = (\<lambda>k. [4, 2, 3, 1] ! k), c_recv_r = (1, char_of (1::nat))\<rparr>"

text \<open>What \<^const>\<open>escape_string\<close> writes between the quotes.\<close>

definition escaped :: "string \<Rightarrow> string" where
  "escaped s = concat (map (\<lambda>c. if strchr escape_chars c then [backslash, c] else [c]) s)"

text \<open>
  The names for which writing and reading back works: not empty, and either quoted by
  \<^const>\<open>escape_string\<close> or free of the delimiters of \<^const>\<open>read_word\<close>.
\<close>

definition safe_name :: "string \<Rightarrow> bool" where
  "safe_name s \<longleftrightarrow>
     s \<noteq> [] \<and> ((\<exists>c \<in> set s. strchr escape_chars c) \<or> (\<forall>c \<in> set s. \<not> strchr word_delims c))"

text \<open>The map after the records of the targets \<open>is\<close> of the map \<open>m0\<close> have been read into it.\<close>

definition merge_records :: "string_list \<Rightarrow> dependency_map \<Rightarrow> dependency_map \<Rightarrow> dependency_map" where
  "merge_records is m0 m =
     fold (\<lambda>i m. if deps_at m0 i = {||} then m else fmupd i (deps_at m i |\<union>| deps_at m0 i) m) is m"

text \<open>The first character of what is written for a safe name.\<close>

definition starts_word :: "string \<Rightarrow> bool" where
  "starts_word xs \<longleftrightarrow>
     (case xs of [] \<Rightarrow> False | x # _ \<Rightarrow> x \<noteq> CHR '' '' \<and> \<not> strchr [cr, lf] x)"

text \<open>The names of the map \<open>m0\<close> that are written for the targets \<open>is\<close>.\<close>

definition safe_records :: "string_list \<Rightarrow> dependency_map \<Rightarrow> bool" where
  "safe_records is m0 \<longleftrightarrow>
     (\<forall>i \<in> set is. deps_at m0 i \<noteq> {||} \<longrightarrow>
        safe_name i \<and> (\<forall>j \<in> fset (deps_at m0 i). safe_name j))"

definition quoted_deps :: state where
  "quoted_deps =
     two_files\<lparr>g_deps := fmupd ''a b'' {|''c:d e'', ''f''|} (fmupd ''x'' {|''w''|} fmempty)\<rparr>"



section \<open>Lemmas\<close>

lemma find_char_Some:
  "find_char c s = Some pos \<Longrightarrow> pos < length s \<and> s ! pos = c \<and> c \<notin> set (take pos s)"
  by (induction s arbitrary: pos) (auto split: if_splits)

lemma find_char_None: "find_char c s = None \<longleftrightarrow> c \<notin> set s"
  by (induction s) auto

lemma find_char_append:
  "c \<notin> set pre \<Longrightarrow> find_char c (pre @ c # suf) = Some (length pre)"
  by (induction pre) auto

lemma substitute_pattern_map:
  "substitute_pattern pat src dst = dst @ map (subst_stem pat) src"
  by (induction src arbitrary: dst) (auto simp: subst_stem_def substr_def split: option.splits)

lemma prefix_take_iff: "prefix xs ys \<longleftrightarrow> length xs \<le> length ys \<and> take (length xs) ys = xs"
proof
  assume "prefix xs ys"
  then obtain zs where "ys = xs @ zs" by (auto simp: prefix_def)
  then show "length xs \<le> length ys \<and> take (length xs) ys = xs" by simp
next
  assume "length xs \<le> length ys \<and> take (length xs) ys = xs"
  then have "ys = xs @ drop (length xs) ys" by (metis append_take_drop_id)
  then show "prefix xs ys" by (metis prefixI)
qed

lemma suffix_drop_iff:
  "suffix xs ys \<longleftrightarrow> length xs \<le> length ys \<and> drop (length ys - length xs) ys = xs"
proof
  assume "suffix xs ys"
  then obtain zs where "ys = zs @ xs" by (auto simp: suffix_def)
  then show "length xs \<le> length ys \<and> drop (length ys - length xs) ys = xs" by simp
next
  assume "length xs \<le> length ys \<and> drop (length ys - length xs) ys = xs"
  then have "ys = take (length ys - length xs) ys @ xs" by (metis append_take_drop_id)
  then show "suffix xs ys" by (metis suffixI)
qed

lemma spec_stem_code:
  assumes "find_char CHR ''%'' j = Some pos"
  shows "spec_stem 1 j target =
     (if length target < length j \<or> compare_ne j 0 pos target 0 pos \<or>
         compare_ne j (pos + 1) (length j - (pos + 1)) target
           (length target - (length j - (pos + 1))) (length j - (pos + 1))
      then None else Some (substr target pos (length target - (length j - 1))))"
proof -
  from assms have pos: "pos < length j" by (simp add: find_char_Some)
  define pre where "pre = take pos j"
  define suf where "suf = drop (Suc pos) j"
  have lp: "length pre = pos" using pos by (simp add: pre_def)
  have ls: "length suf = length j - (pos + 1)" by (simp add: suf_def)
  have tot: "length pre + length suf + 1 = length j" using pos lp ls by simp
  have unfold: "spec_stem 1 j target =
      (if length j \<le> length target \<and> prefix pre target \<and> suffix suf target
       then Some (take (length target - (length pre + length suf)) (drop (length pre) target)) else None)"
    using assms tot lp pos by (auto simp: spec_stem_def Let_def pre_def [symmetric] suf_def [symmetric])
  show ?thesis
  proof (cases "length target < length j")
    case True
    then show ?thesis unfolding unfold by simp
  next
    case False
    then have le: "length j \<le> length target" by simp
    have "substr j 0 pos = pre" by (simp add: substr_def pre_def)
    moreover have "substr target 0 pos = take (length pre) target" by (simp add: substr_def lp)
    ultimately have c1: "compare_ne j 0 pos target 0 pos \<longleftrightarrow> \<not> prefix pre target"
      using le pos lp unfolding compare_ne_def prefix_take_iff [of pre target] by auto
    have "substr j (pos + 1) (length j - (pos + 1)) = suf"
      by (simp add: substr_def suf_def)
    moreover have "substr target (length target - (length j - (pos + 1))) (length j - (pos + 1))
         = drop (length target - length suf) target"
      using le pos by (simp add: substr_def ls)
    ultimately have c2: "compare_ne j (pos + 1) (length j - (pos + 1)) target
           (length target - (length j - (pos + 1))) (length j - (pos + 1))
         \<longleftrightarrow> \<not> suffix suf target"
      using le pos ls unfolding compare_ne_def suffix_drop_iff [of suf target] by auto
    have n: "length target - (length pre + length suf) = length target - (length j - 1)"
      using tot by arith
    show ?thesis
      unfolding c1 c2 unfold n using le by (simp add: substr_def lp)
  qed
qed

lemma spec_stem_length:
  "spec_stem m j target = Some s \<Longrightarrow> length s = length target - (length j - 1) \<and> length j \<le> length target + 1 - m"
  by (auto simp: spec_stem_def Let_def split: option.splits if_splits dest!: find_char_Some)

lemma spec_stem_find_None:
  "find_char CHR ''%'' j = None \<Longrightarrow> spec_stem m j target = None"
  by (simp add: spec_stem_def)

lemma find_rule_targets_generic:
  assumes "generic i"
  shows "find_rule_targets target i js plen rule =
     Inr (case filter (\<lambda>s. length s < plen) (List.map_filter (\<lambda>p. spec_stem 1 p target) js) of
            [] \<Rightarrow> (plen, rule)
          | s # _ \<Rightarrow> (length s, instantiate i s))"
proof (induction js)
  case Nil
  show ?case by (simp add: List.map_filter_simps)
next
  case (Cons j js)
  show ?case
  proof (cases "find_char CHR ''%'' j")
    case None
    then show ?thesis
      using assms Cons by (simp add: List.map_filter_simps spec_stem_find_None Let_def)
  next
    case (Some pos)
    note sc = spec_stem_code [OF Some, of target]
    show ?thesis
    proof (cases "spec_stem 1 j target")
      case None
      then show ?thesis
        using assms Cons Some sc
        by (auto simp: List.map_filter_simps Let_def split: if_splits)
    next
      case (Some s)
      then have len: "length s = length target - (length j - 1)"
        by (simp add: spec_stem_length)
      show ?thesis
        using assms Cons Some sc \<open>find_char CHR ''%'' j = Some pos\<close> len
        by (auto simp: List.map_filter_simps Let_def instantiate_def rule_t0_def
             substitute_pattern_map split: if_splits)
    qed
  qed
qed

lemma find_rule_targets_nongeneric:
  "\<not> generic i \<Longrightarrow> find_rule_targets target i js plen rule =
     (if target \<in> set js then Inl i else Inr (plen, rule))"
  by (induction js) auto

lemma shortest_filter:
  "shortest (filter (\<lambda>c. length (snd c) < n) xs) =
     (case shortest xs of
        None \<Rightarrow> None
      | Some d \<Rightarrow> if length (snd d) < n then Some d else None)"
  by (induction xs) (auto split: option.splits)

lemma shortest_None: "shortest xs = None \<longleftrightarrow> xs = []"
  by (cases xs) (auto split: option.splits)

lemma candidates_Cons:
  "candidates m (r # rs) target =
     (if generic r then map (Pair r) (List.map_filter (\<lambda>p. spec_stem m p target) (targets r)) else [])
     @ candidates m rs target"
  by (simp add: candidates_def)

lemma candidates_Nil: "candidates m [] target = []"
  by (simp add: candidates_def)

lemma find_rule_loop_nongeneric:
  "find (\<lambda>r. \<not> generic r \<and> target \<in> set (targets r)) rs = Some r \<Longrightarrow>
   find_rule_loop target rs plen rule = r"
proof (induction rs arbitrary: plen rule)
  case Nil
  then show ?case by simp
next
  case (Cons i rs)
  show ?case
  proof (cases "generic i")
    case True
    with Cons show ?thesis
      by (simp add: find_rule_targets_generic split: list.splits)
  next
    case False
    with Cons show ?thesis
      by (auto simp: find_rule_targets_nongeneric split: if_splits)
  qed
qed

lemma find_rule_loop_generic:
  assumes "find (\<lambda>r. \<not> generic r \<and> target \<in> set (targets r)) rs = None"
    and "single_match rs target"
  shows "find_rule_loop target rs plen rule =
     (case shortest (filter (\<lambda>c. length (snd c) < plen) (candidates 1 rs target)) of
        None \<Rightarrow> rule
      | Some (r, s) \<Rightarrow> instantiate r s)"
  using assms
proof (induction rs arbitrary: plen rule)
  case Nil
  then show ?case by (simp add: candidates_Nil)
next
  case (Cons i rs)
  from Cons.prems have nf: "find (\<lambda>r. \<not> generic r \<and> target \<in> set (targets r)) rs = None"
    and sm: "single_match rs target"
    by (auto simp: single_match_def split: if_splits)
  note IH = Cons.IH [OF nf sm]
  show ?case
  proof (cases "generic i")
    case False
    with Cons.prems have "target \<notin> set (targets i)" by (auto split: if_splits)
    with False show ?thesis
      by (simp add: find_rule_targets_nongeneric IH candidates_Cons)
  next
    case True
    define ms where "ms = List.map_filter (\<lambda>p. spec_stem 1 p target) (targets i)"
    have ms_eq: "List.map_filter (\<lambda>p. spec_stem (Suc 0) p target) (targets i) = ms"
      by (simp add: ms_def)
    from Cons.prems True have "length ms \<le> 1" by (simp add: single_match_def ms_def)
    then consider "ms = []" | s where "ms = [s]"
      by (cases ms) (auto simp: Suc_le_eq)
    then show ?thesis
    proof cases
      case 1
      with True show ?thesis
        by (simp add: find_rule_targets_generic IH candidates_Cons ms_eq)
    next
      case 2
      show ?thesis
      proof (cases "length s < plen")
        case False
        with True 2 show ?thesis
          by (simp add: find_rule_targets_generic IH candidates_Cons ms_eq)
      next
        case lt: True
        have step: "find_rule_loop target (i # rs) plen rule =
            find_rule_loop target rs (length s) (instantiate i s)"
          using True 2 lt by (simp add: find_rule_targets_generic ms_eq)
        show ?thesis
          unfolding step IH using True 2 lt
          by (simp add: candidates_Cons ms_eq shortest_filter split: option.splits)
      qed
    qed
  qed
qed





lemma status_at_set_status:
  "status_at (set_status j s m) t = (if t = j then (status_at m j)\<lparr>status := s\<rparr> else status_at m t)"
  by (simp add: status_at_def set_status_def)



lemma mark_failed_remove_ok: "remove_ok (mark_failed js st) = remove_ok st"
  by (induction js arbitrary: st) auto


lemma mark_remade_other:
  "files (mark_remade js st) = files st"
  "job_targets (mark_remade js st) = job_targets st"
  "running_jobs (mark_remade js st) = running_jobs st"
  "waiting_jobs (mark_remade js st) = waiting_jobs st"
  "max_active_jobs (mark_remade js st) = max_active_jobs st"
  "build_failure (mark_remade js st) = build_failure st"
  "job_counter (mark_remade js st) = job_counter st"
  by (induction js arbitrary: st) auto

lemma mark_failed_other:
  "job_targets (mark_failed js st) = job_targets st"
  "running_jobs (mark_failed js st) = running_jobs st"
  "waiting_jobs (mark_failed js st) = waiting_jobs st"
  "max_active_jobs (mark_failed js st) = max_active_jobs st"
  "build_failure (mark_failed js st) = build_failure st"
  "job_counter (mark_failed js st) = job_counter st"
  by (induction js arbitrary: st) auto

text \<open>\<^const>\<open>get_status\<close> writes the status cache and the dependency map and nothing else.\<close>

definition same_rest :: "state \<Rightarrow> state \<Rightarrow> bool" where
  "same_rest st st' \<longleftrightarrow> (\<exists>d s. st' = st\<lparr>g_deps := d, g_status := s\<rparr>)"

lemma same_rest_refl: "same_rest st st"
  unfolding same_rest_def by (rule exI [of _ "g_deps st"], rule exI [of _ "g_status st"]) simp

lemma same_rest_trans: "same_rest a b \<Longrightarrow> same_rest b c \<Longrightarrow> same_rest a c"
  unfolding same_rest_def by (elim exE, simp) blast

lemma same_rest_status: "same_rest st (st\<lparr>g_status := s\<rparr>)"
  unfolding same_rest_def by (rule exI [of _ "g_deps st"], rule exI [of _ s]) simp

lemma same_rest_deps: "same_rest st (st\<lparr>g_deps := d\<rparr>)"
  unfolding same_rest_def by (rule exI [of _ d], rule exI [of _ "g_status st"]) simp

lemma same_rest_obsolete: "same_rest st (snd (obsolete t st))"
  by (simp add: obsolete_def Let_def same_rest_status)

lemma same_rest_uptodate: "same_rest st (snd (uptodate t m st))"
  by (simp add: uptodate_def Let_def same_rest_status)

lemma same_rest_fields:
  assumes "same_rest st st'"
  shows "rules st' = rules st" "job_targets st' = job_targets st" "job_pids st' = job_pids st"
    "clients st' = clients st" "max_active_jobs st' = max_active_jobs st"
    "running_jobs st' = running_jobs st" "waiting_jobs st' = waiting_jobs st"
    "job_counter st' = job_counter st" "build_failure st' = build_failure st"
    "files st' = files st" "fork_results st' = fork_results st" "forks st' = forks st"
    "sent st' = sent st"
  using assms unfolding same_rest_def by auto

lemma get_status_only:
  "\<And>ts st'. get_status target st = (ts, st') \<Longrightarrow> same_rest st st'"
  "\<And>obs st'. get_status_deps ks mtime st = (obs, st') \<Longrightarrow> same_rest st st'"
proof (induction target st and ks mtime st rule: get_status_get_status_deps.induct)
  case (1 target st)
  show ?case
  proof (cases "g_status st target")
    case (Some e)
    then show ?thesis using 1(2) by (simp add: get_status.simps same_rest_refl)
  next
    case None
    define x where "x = st\<lparr>g_status := (g_status st)(target \<mapsto> status_t0)\<rparr>"
    have sx: "same_rest st x" unfolding x_def by (rule same_rest_status)
    show ?thesis
    proof (cases "files st target")
      case nf: None
      then have "get_status target st = obsolete target x"
        using None by (simp add: get_status.simps x_def)
      then have "st' = snd (obsolete target x)" using 1(2) by (metis snd_conv)
      then show ?thesis using same_rest_trans [OF sx same_rest_obsolete] by simp
    next
      case (Some m)
      define xa where "xa = x\<lparr>g_deps := deps_touch target (g_deps x)\<rparr>"
      define r where "r = get_status_deps (sorted_list_of_fset (deps_at (g_deps xa) target)) m xa"
      have fx: "files x target = Some m" using Some by (simp add: x_def)
      have res: "get_status target st =
          (if fst r then obsolete target (snd r) else uptodate target m (snd r))"
        using None Some
        by (simp add: get_status.simps x_def [symmetric] fx xa_def [symmetric] r_def [symmetric]
              case_prod_beta Let_def)
      have sxa: "same_rest x xa" unfolding xa_def by (rule same_rest_deps)
      have b: "same_rest xa (snd r)"
        using 1(1) [OF None x_def fx xa_def, of "fst r" "snd r"] by (simp add: r_def)
      have c: "same_rest st (snd r)"
        using same_rest_trans [OF sx same_rest_trans [OF sxa b]] .
      have "st' = snd (obsolete target (snd r)) \<or> st' = snd (uptodate target m (snd r))"
        using 1(2) unfolding res by (metis snd_conv)
      then show ?thesis
        using same_rest_trans [OF c same_rest_obsolete] same_rest_trans [OF c same_rest_uptodate]
        by auto
    qed
  qed
next
  case (2 mtime st)
  then show ?case by (simp add: same_rest_refl)
next
  case (3 k ks mtime st)
  obtain ts y where g: "get_status k st = (ts, y)" by (cases "get_status k st")
  from 3(1) [OF g] have fy: "same_rest st y" .
  show ?case
  proof (cases "status ts \<noteq> Uptodate \<or> mtime < last_modified ts")
    case True
    then have "st' = y" using 3(3) g by (auto simp: get_status_deps.simps)
    then show ?thesis using fy by simp
  next
    case False
    then have r: "get_status_deps ks mtime y = (obs, st')"
      using 3(3) g by (auto simp: get_status_deps.simps)
    from 3(2) [OF refl g [symmetric] False r]
    have "same_rest y st'" .
    with fy show ?thesis by (rule same_rest_trans)
  qed
qed

text \<open>
  The quantity of the slot accounting, \<open>active = running_jobs - waiting_jobs\<close>, and the
  bound on it when the cap is positive.
\<close>

definition active :: "state \<Rightarrow> int" where
  "active st = running_jobs st - waiting_jobs st"

definition slots_ok :: "state \<Rightarrow> bool" where
  "slots_ok st \<longleftrightarrow> (0 < max_active_jobs st \<longrightarrow> active st \<le> max_active_jobs st)"

lemma has_free_slots_active:
  "has_free_slots st \<longleftrightarrow> (max_active_jobs st \<le> 0 \<or> active st < max_active_jobs st)"
  by (simp add: has_free_slots_def active_def)

lemma get_status_counters:
  assumes "get_status target st = (ts, st')"
  shows "active st' = active st" "max_active_jobs st' = max_active_jobs st"
    "build_failure st' = build_failure st"
  using same_rest_fields [OF get_status_only(1) [OF assms]] by (simp_all add: active_def)

lemma complete_job_counters:
  assumes "complete_job jid success st = Inr st'"
  shows "active st' = active st" "max_active_jobs st' = max_active_jobs st"
    "build_failure st' = build_failure st"
  using assms
  by (auto simp: complete_job_def Let_def active_def mark_remade_other mark_failed_other
      split: option.splits if_splits)

lemma run_script_counters:
  assumes "run_script jid rule st = Inr st'"
  shows "active st' \<le> active st + 1" "max_active_jobs st' = max_active_jobs st"
    "build_failure st' = build_failure st"
proof -
  define st1 where "st1 = st\<lparr>forks := forks st + 1\<rparr>"
  have c: "active st1 = active st" "max_active_jobs st1 = max_active_jobs st"
    "build_failure st1 = build_failure st"
    by (simp_all add: st1_def active_def)
  from assms consider "complete_job jid False st1 = Inr st'"
    | "st' = st1\<lparr>running_jobs := running_jobs st1 + 1,
                 job_pids := (job_pids st1)(fork_results st (forks st) \<mapsto> jid)\<rparr>"
    by (auto simp: run_script_def Let_def st1_def split: if_splits)
  then have "active st' \<le> active st + 1 \<and> max_active_jobs st' = max_active_jobs st \<and>
      build_failure st' = build_failure st"
  proof cases
    case 1
    from complete_job_counters [OF 1] c show ?thesis by simp
  next
    case 2
    with c show ?thesis by (simp add: active_def st1_def)
  qed
  then show "active st' \<le> active st + 1" "max_active_jobs st' = max_active_jobs st"
    "build_failure st' = build_failure st" by simp_all
qed

lemma start_targets_counters:
  "active (start_targets ts ds st) = active st"
  "max_active_jobs (start_targets ts ds st) = max_active_jobs st"
  "build_failure (start_targets ts ds st) = build_failure st"
  "job_counter (start_targets ts ds st) = job_counter st"
  "job_targets (start_targets ts ds st) = job_targets st"
  by (induction ts arbitrary: st) (auto simp: active_def)

lemma start_counters:
  assumes "start target st = Inr (ok, new, st')"
  shows "active st' \<le> active st + 1" "max_active_jobs st' = max_active_jobs st"
    "build_failure st' = build_failure st" "\<not> ok \<Longrightarrow> active st' = active st"
proof -
  define rule where "rule = find_rule (rules st) target"
  define st1 where "st1 = start_targets (targets rule) (deps rule) st"
  have c: "active st1 = active st" "max_active_jobs st1 = max_active_jobs st"
    "build_failure st1 = build_failure st"
    by (simp_all add: st1_def start_targets_counters)
  from assms consider
      (norule) "\<not> ok" "st' = st\<lparr>g_status := set_status target Failed (g_status st)\<rparr>"
    | (client) "ok" "st' = st1\<lparr>job_targets := (job_targets st1)(job_counter st1 \<mapsto> targets rule),
                job_counter := job_counter st1 + 1\<rparr>"
    | (script) st2 where "ok" "run_script (job_counter st1) rule st1 = Inr st2"
        "st' = st2\<lparr>job_targets := (job_targets st2)(job_counter st2 \<mapsto> targets rule),
                job_counter := job_counter st2 + 1\<rparr>"
    by (auto simp: start_def Let_def then_do_def rule_def [symmetric] st1_def [symmetric]
        split: if_splits sum.splits)
  then have "active st' \<le> active st + 1 \<and> max_active_jobs st' = max_active_jobs st \<and>
      build_failure st' = build_failure st \<and> (\<not> ok \<longrightarrow> active st' = active st)"
  proof cases
    case norule
    then show ?thesis by (simp add: active_def)
  next
    case client
    with c show ?thesis by (simp add: active_def)
  next
    case script
    from run_script_counters [OF script(2)] c script(1,3) show ?thesis by (simp add: active_def)
  qed
  then show "active st' \<le> active st + 1" "max_active_jobs st' = max_active_jobs st"
    "build_failure st' = build_failure st" "\<not> ok \<Longrightarrow> active st' = active st"
    by simp_all
qed

lemma complete_request_counters:
  assumes "complete_request c success st = Inr st'"
  shows "active st' \<le> active st + 1" "max_active_jobs st' = max_active_jobs st"
    "build_failure st' \<longleftrightarrow> build_failure st \<or> (job_id c < 0 \<and> \<not> success)"
proof -
  from assms obtain st1 where
    s1: "(run_script (job_id c) (the (delayed c)) st = Inr st1 \<or>
          complete_job (job_id c) False st = Inr st1 \<or>
          st1 = st\<lparr>sent := sent st @ [(fd c, if success then 1 else 0)],
                   waiting_jobs := waiting_jobs st - 1\<rparr> \<or> st1 = st)"
    and s2: "st' = (if job_id c < 0 \<and> \<not> success then st1\<lparr>build_failure := True\<rparr> else st1)"
    by (auto simp: complete_request_def then_do_def split: option.splits if_splits sum.splits)
  from s1 have "active st1 \<le> active st + 1 \<and> max_active_jobs st1 = max_active_jobs st \<and>
      build_failure st1 = build_failure st"
    using run_script_counters [of "job_id c" "the (delayed c)" st st1]
      complete_job_counters [of "job_id c" False st st1]
    by (auto simp: active_def)
  with s2 show "active st' \<le> active st + 1" "max_active_jobs st' = max_active_jobs st"
    "build_failure st' \<longleftrightarrow> build_failure st \<or> (job_id c < 0 \<and> \<not> success)"
    by (auto simp: active_def)
qed

lemma free_slots_ok: "has_free_slots st \<Longrightarrow> slots_ok st"
  by (auto simp: has_free_slots_active slots_ok_def)

lemma slots_ok_step:
  "has_free_slots st \<Longrightarrow> active st' \<le> active st + 1 \<Longrightarrow>
   max_active_jobs st' = max_active_jobs st \<Longrightarrow> slots_ok st'"
  by (auto simp: has_free_slots_active slots_ok_def)

lemma free_slots_same:
  "has_free_slots st \<Longrightarrow> active st' = active st \<Longrightarrow>
   max_active_jobs st' = max_active_jobs st \<Longrightarrow> has_free_slots st'"
  by (auto simp: has_free_slots_active)

lemma slots_ok_le:
  "slots_ok st \<Longrightarrow> active st' \<le> active st \<Longrightarrow>
   max_active_jobs st' = max_active_jobs st \<Longrightarrow> slots_ok st'"
  by (auto simp: slots_ok_def)

lemma drain_slots:
  "has_free_slots st \<Longrightarrow> drain n i post st = Inr (out, i', post', st') \<Longrightarrow>
   max_active_jobs st' = max_active_jobs st \<and> slots_ok st' \<and>
   (out \<noteq> Return \<longrightarrow> has_free_slots st') \<and> build_failure st' = build_failure st"
proof (induction n arbitrary: i post st)
  case 0
  then show ?case by (auto simp: free_slots_ok)
next
  case (Suc n)
  show ?case
  proof (cases "pending i")
    case Nil
    with Suc.prems show ?thesis by (auto simp: free_slots_ok)
  next
    case (Cons target rest)
    obtain ts st1 where g: "get_status target st = (ts, st1)" by (cases "get_status target st")
    note c1 = get_status_counters [OF g]
    have f1: "has_free_slots st1" using Suc.prems(1) c1 by (auto intro: free_slots_same)
    define i1 where "i1 = i\<lparr>pending := rest\<rparr>"
    note d = Suc.prems(2) [unfolded drain.simps Cons list.case g prod.case Let_def]
    show ?thesis
    proof (cases "status ts")
      case Uptodate
      with d have "drain n i1 post st1 = Inr (out, i', post', st')" by (simp add: i1_def)
      from Suc.IH [OF f1 this] c1 show ?thesis by simp
    next
      case Remade
      with d have "drain n i1 post st1 = Inr (out, i', post', st')" by (simp add: i1_def)
      from Suc.IH [OF f1 this] c1 show ?thesis by simp
    next
      case Running
      with d
      have "drain n (i1\<lparr>running := finsert target (running i1)\<rparr>) post st1 = Inr (out, i', post', st')"
        by (simp add: i1_def)
      from Suc.IH [OF f1 this] c1 show ?thesis by simp
    next
      case Failed
      with d have "out = Goto_failed" "st' = st1" by simp_all
      with f1 c1 show ?thesis by (simp add: free_slots_ok)
    next
      case Todo
      with d obtain ok new st2 where s: "start target st1 = Inr (ok, new, st2)"
        by (auto simp: then_do_def split: sum.splits)
      note c2 = start_counters [OF s]
      have ok2: "slots_ok st2" using f1 c2(1,2) by (rule slots_ok_step)
      have m2: "max_active_jobs st2 = max_active_jobs st" using c1 c2 by simp
      have b2: "build_failure st2 = build_failure st" using c1 c2 by simp
      have d2: "(if \<not> ok then Inr (Goto_failed, i1, post, st2)
                 else (case new of
                         None \<Rightarrow>
                           if \<not> has_free_slots st2
                           then Inr (Return, i1\<lparr>running := finsert target (running i1)\<rparr>, post, st2)
                           else drain n (i1\<lparr>running := finsert target (running i1)\<rparr>) post st2
                       | Some c \<Rightarrow>
                           if \<not> has_free_slots st2
                           then Inr (Return, c, i1\<lparr>running := finsert target (running i1)\<rparr> # post, st2)
                           else drain n c (i1\<lparr>running := finsert target (running i1)\<rparr> # post) st2))
             = Inr (out, i', post', st')"
        using d Todo s unfolding i1_def
        by (auto simp: then_do_def split: option.splits if_splits)
      show ?thesis
      proof (cases ok)
        case False
        with d2 have "out = Goto_failed" "st' = st2" by simp_all
        moreover have "has_free_slots st2" using f1 c2(4) [OF False] c2(2) by (rule free_slots_same)
        ultimately show ?thesis using ok2 m2 b2 by simp
      next
        case True
        show ?thesis
        proof (cases "has_free_slots st2")
          case False
          with d2 True have "out = Return" "st' = st2" by (auto split: option.splits)
          then show ?thesis using ok2 m2 b2 by simp
        next
          case free: True
          from d2 True free obtain c post2 where "drain n c post2 st2 = Inr (out, i', post', st')"
            by (auto split: option.splits)
          from Suc.IH [OF free this] m2 b2 show ?thesis by simp
        qed
      qed
    qed
  qed
qed

lemma harvest_result: "harvest js i st = Inr (failed, i') \<Longrightarrow> job_id i' = job_id i"
  by (induction js arbitrary: i) (auto split: option.splits status_e.splits)

lemma update_loop_slots:
  "slots_ok st \<Longrightarrow> update_loop n pre cs st = Inr r \<Longrightarrow>
   slots_ok (run_state r) \<and> max_active_jobs (run_state r) = max_active_jobs st"
proof (induction n arbitrary: pre cs st)
  case 0
  then show ?case by (auto simp: slots_ok_def active_def)
next
  case (Suc n)
  note IH = Suc.IH
  note prems = Suc.prems
  show ?case
  proof (cases cs)
    case Nil
    with prems show ?thesis by (auto simp: slots_ok_def active_def)
  next
    case (Cons i post)
    note prems2 = prems(2) [unfolded Cons]
  show ?thesis
  proof (cases "has_free_slots st")
    case False
    with prems(1) prems2 show ?thesis by (auto simp: slots_ok_def active_def)
  next
    case True
    from prems2 True obtain failed i1 where h: "harvest (sorted_list_of_fset (running i)) i st = Inr (failed, i1)"
      by (auto simp: then_do_def split: sum.splits)
    show ?thesis
    proof (cases failed)
      case f: True
      from prems2 True h f obtain st1 where
        c: "complete_request i1 False st = Inr st1" and u: "update_loop n pre post st1 = Inr r"
        by (auto simp: then_do_def split: sum.splits)
      note cc = complete_request_counters [OF c]
      have "slots_ok st1" using True cc(1,2) by (rule slots_ok_step)
      from IH [OF this u] cc
      show ?thesis by simp
    next
      case nf: False
      from prems2 True h nf obtain out i2 post2 st2 where
        d: "drain n i1 post st = Inr (out, i2, post2, st2)"
        by (auto simp: then_do_def split: sum.splits)
      note dd = drain_slots [OF True d]
      have rest: "(case out of
                Goto_failed \<Rightarrow>
                  then_do (complete_request i2 False st2) (\<lambda>st. update_loop n pre post2 st)
              | Return \<Rightarrow> Inr (Finished (st2\<lparr>clients := pre @ i2 # post2\<rparr>))
              | Fuel_out \<Rightarrow> Inr (Unfinished (st2\<lparr>clients := pre @ i2 # post2\<rparr>))
              | Done \<Rightarrow>
                  if running i2 = {||} then
                    then_do (complete_request i2 True st2) (\<lambda>st. update_loop n pre post2 st)
                  else update_loop n (pre @ [i2]) post2 st2) = Inr r"
        using prems2 True h nf d by (simp add: then_do_def)
      show ?thesis
      proof (cases out)
        case Goto_failed
        with rest obtain st3 where
          c: "complete_request i2 False st2 = Inr st3" and u: "update_loop n pre post2 st3 = Inr r"
          by (auto simp: then_do_def split: sum.splits)
        note cc = complete_request_counters [OF c]
        have f2: "has_free_slots st2" using dd Goto_failed by simp
        have "slots_ok st3" using f2 cc(1,2) by (rule slots_ok_step)
        from IH [OF this u] cc dd
        show ?thesis by simp
      next
        case Return
        with rest dd show ?thesis by (auto simp: slots_ok_def active_def)
      next
        case Fuel_out
        with rest dd show ?thesis by (auto simp: slots_ok_def active_def)
      next
        case Done
        have f2: "has_free_slots st2" using dd Done by simp
        show ?thesis
        proof (cases "running i2 = {||}")
          case e: True
          with rest Done obtain st3 where
            c: "complete_request i2 True st2 = Inr st3" and u: "update_loop n pre post2 st3 = Inr r"
            by (auto simp: then_do_def split: sum.splits)
          note cc = complete_request_counters [OF c]
          have "slots_ok st3" using f2 cc(1,2) by (rule slots_ok_step)
          from IH [OF this u] cc dd
          show ?thesis by simp
        next
          case ne: False
          with rest Done have u: "update_loop n (pre @ [i2]) post2 st2 = Inr r" by simp
          from IH [OF _ u] dd
          show ?thesis by simp
        qed
      qed
    qed
  qed
  qed
qed

lemma add_dep_counters:
  "active (add_dep l t st) = active st"
  "max_active_jobs (add_dep l t st) = max_active_jobs st"
  "build_failure (add_dep l t st) = build_failure st"
  by (induction l arbitrary: st) (auto simp: active_def)

lemma parse_targets_counters:
  "active (parse_targets p l proc st) \<le> active st \<and>
   max_active_jobs (parse_targets p l proc st) = max_active_jobs st \<and>
   build_failure (parse_targets p l proc st) = build_failure st"
proof (induction p l proc st rule: parse_targets.induct)
  case (1 p l proc st)
  show ?case
  proof (cases "p = []")
    case True
    then show ?thesis by (simp add: parse_targets.simps)
  next
    case False
    define len where "len = length (takeWhile (\<lambda>c. c \<noteq> nul) p)"
    show ?thesis
    proof (cases "len = 0")
      case True
      then show ?thesis using False
        by (subst (1 2 3) parse_targets.simps) (simp add: len_def [symmetric] active_def)
    next
      case nz: False
      from 1 [OF False len_def nz refl refl refl] add_dep_counters [of l "take len p" st]
      show ?thesis using False nz
        by (subst (1 2 3) parse_targets.simps) (simp add: len_def [symmetric] Let_def)
    qed
  qed
qed

lemma accept_client_counters:
  "active (accept_client rq st) \<le> active st \<and>
   max_active_jobs (accept_client rq st) = max_active_jobs st \<and>
   build_failure (accept_client rq st) = build_failure st"
  using parse_targets_counters
  by (auto simp: accept_client_def Let_def split: option.splits)

lemma reap_counters:
  "reap l st = Inr st' \<Longrightarrow>
   active st' \<le> active st \<and> max_active_jobs st' = max_active_jobs st \<and>
   build_failure st' = build_failure st"
proof (induction l arbitrary: st)
  case Nil
  then show ?case by simp
next
  case (Cons a l)
  obtain pid ws where a: "a = (pid, ws)" by (cases a)
  from Cons.prems a obtain jid st1 where
    j: "job_pids st pid = Some jid"
    and c: "complete_job jid (reaped_success ws)
             (st\<lparr>job_pids := (job_pids st)(pid := None), running_jobs := running_jobs st - 1\<rparr>) = Inr st1"
    and r: "reap l st1 = Inr st'"
    by (auto simp: Let_def split: option.splits sum.splits)
  from complete_job_counters [OF c] Cons.IH [OF r]
  show ?case by (simp add: active_def)
qed

lemma handle_event_counters:
  assumes "handle_event ev st = Inr st'"
  shows "active st' \<le> active st \<and> max_active_jobs st' = max_active_jobs st \<and>
   build_failure st' = build_failure st"
proof -
  define st1 where "st1 = st\<lparr>files := ev_files ev, contents := ev_contents ev,
                              remove_ok := ev_remove_ok ev\<rparr>"
  define st2 where "st2 = (case ev_request ev of None \<Rightarrow> st1 | Some rq \<Rightarrow> accept_client rq st1)"
  have c1: "active st1 = active st" "max_active_jobs st1 = max_active_jobs st"
    "build_failure st1 = build_failure st"
    by (simp_all add: st1_def active_def)
  have c2: "active st2 \<le> active st1 \<and> max_active_jobs st2 = max_active_jobs st1 \<and>
      build_failure st2 = build_failure st1"
    using accept_client_counters by (simp add: st2_def split: option.splits)
  from assms have "st' = st2 \<or> (\<exists>l. reap l st2 = Inr st')"
    by (auto simp: handle_event_def Let_def st1_def [symmetric] st2_def [symmetric]
        split: option.splits)
  then show ?thesis
  proof
    assume "st' = st2"
    with c1 c2 show ?thesis by simp
  next
    assume "\<exists>l. reap l st2 = Inr st'"
    then obtain l where "reap l st2 = Inr st'" ..
    from reap_counters [OF this] c1 c2 show ?thesis by simp
  qed
qed

lemma server_loop_slots:
  "slots_ok st \<Longrightarrow> server_loop fuel evs st = Inr q \<Longrightarrow> slots_ok (fst (run_state q))"
proof (induction evs arbitrary: st)
  case Nil
  from Nil.prems(2) obtain r where u: "update_clients fuel st = Inr r"
    by (subst (asm) server_loop.simps) (auto split: sum.splits)
  from update_loop_slots [OF Nil.prems(1) u [unfolded update_clients_def]]
  have "slots_ok (run_state r)" by simp
  moreover have "fst (run_state q) = run_state r"
    using Nil.prems(2) u
    by (subst (asm) server_loop.simps) (auto split: run.splits if_splits)
  ultimately show ?case by simp
next
  case (Cons ev evs)
  from Cons.prems(2) obtain r where u: "update_clients fuel st = Inr r"
    by (subst (asm) server_loop.simps) (auto split: sum.splits)
  from update_loop_slots [OF Cons.prems(1) u [unfolded update_clients_def]]
  have ok: "slots_ok (run_state r)" by simp
  from Cons.prems(2) u consider "fst (run_state q) = run_state r"
    | st1 where "handle_event ev (run_state r) = Inr st1" "server_loop fuel evs st1 = Inr q"
    by (subst (asm) server_loop.simps) (auto split: run.splits if_splits sum.splits)
  then show ?case
  proof cases
    case 1
    with ok show ?thesis by simp
  next
    case 2
    from handle_event_counters [OF 2(1)] ok have "slots_ok st1"
      by (auto intro: slots_ok_le)
    from Cons.IH [OF this 2(2)] show ?thesis .
  qed
qed

lemma returnsI: "(case x of Inl e \<Rightarrow> False | Inr s \<Rightarrow> True) \<Longrightarrow> \<exists>s. x = Inr s"
  by (cases x) auto















lemma escape_count_filter:
  "escape_count s n = n + length (filter (strchr escape_chars) s)"
  by (induction s arbitrary: n) simp_all

lemma escaped_length: "length (escaped s) = length s + length (filter (strchr escape_chars) s)"
  by (induction s) (simp_all add: escaped_def)

lemma escape_string_plain:
  "\<forall>c \<in> set s. \<not> strchr escape_chars c \<Longrightarrow> escape_string s = s"
proof -
  assume "\<forall>c \<in> set s. \<not> strchr escape_chars c"
  then have "filter (strchr escape_chars) s = []" by (simp add: filter_empty_conv)
  then show ?thesis by (simp add: escape_string_def Let_def escape_count_filter)
qed

lemma escape_fill_replicate:
  "length pre = j \<Longrightarrow> length (escaped cs) \<le> n \<Longrightarrow>
   escape_fill cs j (pre @ replicate n backslash) =
     pre @ escaped cs @ replicate (n - length (escaped cs)) backslash"
proof (induction cs arbitrary: j pre n)
  case Nil
  then show ?case by (simp add: escaped_def)
next
  case (Cons c cs)
  show ?case
  proof (cases "strchr escape_chars c")
    case True
    then have e: "escaped (c # cs) = backslash # c # escaped cs" by (simp add: escaped_def)
    with Cons.prems(2) obtain m where n: "n = Suc (Suc m)" and le: "length (escaped cs) \<le> m"
      by (cases n; cases "n - 1") auto
    have u: "(pre @ replicate n backslash)[j + 1 := c] = (pre @ [backslash, c]) @ replicate m backslash"
      using Cons.prems(1) by (simp add: n list_update_append)
    have "escape_fill (c # cs) j (pre @ replicate n backslash) =
          escape_fill cs (j + 2) ((pre @ [backslash, c]) @ replicate m backslash)"
      using True u by (simp add: Let_def)
    also have "\<dots> = (pre @ [backslash, c]) @ escaped cs @ replicate (m - length (escaped cs)) backslash"
      using Cons.prems(1) le by (intro Cons.IH) simp_all
    finally show ?thesis by (simp add: e n)
  next
    case False
    then have e: "escaped (c # cs) = c # escaped cs" by (simp add: escaped_def)
    with Cons.prems(2) obtain m where n: "n = Suc m" and le: "length (escaped cs) \<le> m"
      by (cases n) auto
    have u: "(pre @ replicate n backslash)[j := c] = (pre @ [c]) @ replicate m backslash"
      using Cons.prems(1) by (simp add: n list_update_append)
    have "escape_fill (c # cs) j (pre @ replicate n backslash) =
          escape_fill cs (j + 1) ((pre @ [c]) @ replicate m backslash)"
      using False u by (simp add: Let_def)
    also have "\<dots> = (pre @ [c]) @ escaped cs @ replicate (m - length (escaped cs)) backslash"
      using Cons.prems(1) le by (intro Cons.IH) simp_all
    finally show ?thesis by (simp add: e n)
  qed
qed

lemma escape_string_quoted:
  assumes "\<exists>c \<in> set s. strchr escape_chars c"
  shows "escape_string s = dquote # escaped s @ [dquote]"
proof -
  define k where "k = length (filter (strchr escape_chars) s)"
  from assms have k: "k \<noteq> 0" by (auto simp: k_def filter_empty_conv)
  define nb where "nb = length s + k"
  have nb: "escape_count s (length s) = nb" by (simp add: escape_count_filter nb_def k_def)
  have l: "length (escaped s) = nb" by (simp add: escaped_length nb_def k_def)
  have t0: "(replicate (nb + 2) backslash)[0 := dquote] = [dquote] @ replicate (nb + 1) backslash"
    by simp
  have f: "escape_fill s 1 ([dquote] @ replicate (nb + 1) backslash) =
           [dquote] @ escaped s @ replicate (nb + 1 - length (escaped s)) backslash"
    by (rule escape_fill_replicate) (simp_all add: l)
  have "escape_string s = (escape_fill s 1 ([dquote] @ replicate (nb + 1) backslash))[nb + 1 := dquote]"
    using k unfolding escape_string_def Let_def nb t0 by (simp add: nb_def)
  also have "\<dots> = ([dquote] @ escaped s @ [backslash])[nb + 1 := dquote]"
    unfolding f by (simp add: l)
  also have "\<dots> = dquote # escaped s @ [dquote]"
    using l by (simp add: list_update_append)
  finally show ?thesis .
qed

lemma get_open_Cons: "get (open_stream (c # cs)) = (of_char c, open_stream cs)"
  by (simp add: get_def open_stream_def good_def)

lemma get_open_ex: "\<exists>k. get (open_stream (c # cs)) = (k, open_stream cs) \<and> to_char k = c"
  by (simp add: get_open_Cons to_char_of_char)

lemma get_open_Nil: "\<not> good (snd (get (open_stream [])))"
  by (simp add: get_def open_stream_def good_def)

lemma good_open: "good (open_stream s)"
  by (simp add: open_stream_def good_def)

lemma special_chars:
  "strchr escape_chars backslash" "strchr escape_chars dquote"
  "\<not> strchr word_delims dquote"
  by (simp_all add: strchr_def escape_chars_def word_delims_def)

lemma read_word_loop_quoted:
  "read_word_loop True (open_stream (escaped s @ dquote # rest)) res = (res @ s, open_stream rest)"
proof (induction s arbitrary: res)
  case Nil
  from get_open_ex obtain k where
    k: "get (open_stream (dquote # rest)) = (k, open_stream rest)" "to_char k = dquote" by blast
  show ?case
    by (subst read_word_loop.simps) (simp add: escaped_def k good_open)
next
  case (Cons c s)
  show ?case
  proof (cases "strchr escape_chars c")
    case True
    then have e: "escaped (c # s) = backslash # c # escaped s" by (simp add: escaped_def)
    from get_open_ex obtain k where
      k: "get (open_stream (backslash # c # escaped s @ dquote # rest)) =
            (k, open_stream (c # escaped s @ dquote # rest))" "to_char k = backslash" by blast
    from get_open_ex obtain k2 where
      k2: "get (open_stream (c # escaped s @ dquote # rest)) =
            (k2, open_stream (escaped s @ dquote # rest))" "to_char k2 = c" by blast
    show ?thesis
      unfolding e
      by (subst read_word_loop.simps) (simp add: k k2 good_open Cons.IH)
  next
    case False
    then have e: "escaped (c # s) = c # escaped s" by (simp add: escaped_def)
    from False special_chars have ne: "c \<noteq> backslash" "c \<noteq> dquote" by auto
    from get_open_ex obtain k where
      k: "get (open_stream (c # escaped s @ dquote # rest)) =
            (k, open_stream (escaped s @ dquote # rest))" "to_char k = c" by blast
    show ?thesis
      unfolding e
      by (subst read_word_loop.simps) (simp add: k ne good_open Cons.IH)
  qed
qed

lemma read_word_loop_plain:
  "fst (read_word_loop False (open_stream xs) res) =
     res @ takeWhile (\<lambda>c. \<not> strchr word_delims c) xs"
proof (induction xs arbitrary: res)
  case Nil
  show ?case
    using get_open_Nil
    by (subst read_word_loop.simps) (simp add: split_beta)
next
  case (Cons c xs)
  show ?case
    by (subst read_word_loop.simps)
       (simp add: get_open_Cons good_open to_char_of_char Cons.IH)
qed

lemma read_word_quoted:
  "read_word (open_stream (dquote # escaped s @ dquote # rest)) = (s, open_stream rest)"
proof -
  from get_open_ex obtain k where
    k: "get (open_stream (dquote # escaped s @ dquote # rest)) =
          (k, open_stream (escaped s @ dquote # rest))" "to_char k = dquote" by blast
  show ?thesis
    by (simp add: read_word_def k good_open special_chars read_word_loop_quoted)
qed

lemma read_word_plain:
  assumes "\<forall>c \<in> set s. \<not> strchr escape_chars c"
  shows "fst (read_word (open_stream s)) = takeWhile (\<lambda>c. \<not> strchr word_delims c) s"
proof (cases s)
  case Nil
  then show ?thesis using get_open_Nil by (simp add: read_word_def split_beta)
next
  case (Cons c cs)
  with assms special_chars have "c \<noteq> dquote" by auto
  then show ?thesis
    unfolding Cons
    by (simp add: read_word_def get_open_Cons good_open to_char_of_char read_word_loop_plain)
qed

lemma escape_read_word_back:
  "fst (read_word (open_stream (escape_string s))) =
     (if \<exists>c \<in> set s. strchr escape_chars c then s
      else takeWhile (\<lambda>c. \<not> strchr word_delims c) s)"
proof (cases "\<exists>c \<in> set s. strchr escape_chars c")
  case True
  have "read_word (open_stream (dquote # escaped s @ dquote # [])) = (s, open_stream [])"
    by (rule read_word_quoted)
  with True show ?thesis by (simp add: escape_string_quoted)
next
  case False
  then have p: "\<forall>c \<in> set s. \<not> strchr escape_chars c" by simp
  with False show ?thesis by (simp add: escape_string_plain read_word_plain)
qed

lemma putback_open: "putback c (open_stream s) = open_stream (c # s)"
  by (simp add: putback_def open_stream_def good_def)

lemma read_word_loop_plain_full:
  "\<forall>c \<in> set xs. \<not> strchr word_delims c \<Longrightarrow> strchr word_delims d \<Longrightarrow>
   read_word_loop False (open_stream (xs @ d # rest)) res = (res @ xs, open_stream (d # rest))"
proof (induction xs arbitrary: res)
  case Nil
  from get_open_ex obtain k where
    k: "get (open_stream (d # rest)) = (k, open_stream rest)" "to_char k = d" by blast
  show ?case
    using Nil.prems(2)
    by (subst read_word_loop.simps) (simp add: k good_open putback_open)
next
  case (Cons c xs)
  from get_open_ex obtain k where
    k: "get (open_stream (c # xs @ d # rest)) = (k, open_stream (xs @ d # rest))" "to_char k = c"
    by blast
  from Cons.prems have nd: "\<not> strchr word_delims c" by simp
  have "read_word_loop False (open_stream (xs @ d # rest)) (res @ [c]) =
          ((res @ [c]) @ xs, open_stream (d # rest))"
    using Cons.prems by (intro Cons.IH) simp_all
  then show ?case
    by (subst read_word_loop.simps) (simp add: k good_open nd)
qed

lemma read_word_delim:
  assumes "strchr word_delims d"
  shows "read_word (open_stream (d # rest)) = ([], open_stream (d # rest))"
proof -
  from get_open_ex obtain k where
    k: "get (open_stream (d # rest)) = (k, open_stream rest)" "to_char k = d" by blast
  show ?thesis using assms by (simp add: read_word_def k good_open putback_open)
qed

lemma read_word_escaped:
  assumes "safe_name s" and "strchr word_delims d"
  shows "read_word (open_stream (escape_string s @ d # rest)) = (s, open_stream (d # rest))"
proof (cases "\<exists>c \<in> set s. strchr escape_chars c")
  case True
  have "read_word (open_stream (dquote # escaped s @ dquote # d # rest)) =
          (s, open_stream (d # rest))"
    by (rule read_word_quoted)
  with True show ?thesis by (simp add: escape_string_quoted)
next
  case False
  then have p: "\<forall>c \<in> set s. \<not> strchr escape_chars c" by simp
  with assms(1) have nd: "\<forall>c \<in> set s. \<not> strchr word_delims c" by (auto simp: safe_name_def)
  from assms(1) obtain c cs where s: "s = c # cs" by (cases s) (auto simp: safe_name_def)
  from p s special_chars have q: "c \<noteq> dquote" by auto
  from get_open_ex obtain k where
    k: "get (open_stream (c # cs @ d # rest)) = (k, open_stream (cs @ d # rest))" "to_char k = c"
    by blast
  have l: "read_word_loop False (open_stream (cs @ d # rest)) [c] =
             ([c] @ cs, open_stream (d # rest))"
    using nd assms(2) s by (intro read_word_loop_plain_full) simp_all
  have "read_word (open_stream (s @ d # rest)) = (s, open_stream (d # rest))"
    using nd q l unfolding s by (simp add: read_word_def k good_open)
  with p show ?thesis by (simp add: escape_string_plain)
qed

lemma escape_string_starts:
  assumes "safe_name s"
  shows "starts_word (escape_string s @ rest)"
proof (cases "\<exists>c \<in> set s. strchr escape_chars c")
  case True
  then show ?thesis
    by (simp add: escape_string_quoted starts_word_def strchr_def)
next
  case False
  then have p: "\<forall>c \<in> set s. \<not> strchr escape_chars c" by simp
  with assms have nd: "\<forall>c \<in> set s. \<not> strchr word_delims c" by (auto simp: safe_name_def)
  from assms obtain c cs where s: "s = c # cs" by (cases s) (auto simp: safe_name_def)
  from p nd s have "c \<noteq> CHR '' '' \<and> \<not> strchr [cr, lf] c"
    by (auto simp: strchr_def escape_chars_def word_delims_def)
  with p show ?thesis by (simp add: escape_string_plain s starts_word_def)
qed

lemma skip_spaces_word:
  assumes "x \<noteq> CHR '' ''"
  shows "skip_spaces (open_stream (x # rest)) = open_stream (x # rest)"
proof -
  from get_open_ex obtain k where
    k: "get (open_stream (x # rest)) = (k, open_stream rest)" "to_char k = x" by blast
  show ?thesis
    using assms by (subst skip_spaces.simps) (simp add: k good_open putback_open)
qed

lemma skip_spaces_space:
  assumes "x \<noteq> CHR '' ''"
  shows "skip_spaces (open_stream (CHR '' '' # x # rest)) = open_stream (x # rest)"
proof -
  from get_open_ex obtain k where
    k: "get (open_stream (CHR '' '' # x # rest)) = (k, open_stream (x # rest))"
       "to_char k = CHR '' ''" by blast
  show ?thesis
    using skip_spaces_word [OF assms] by (subst skip_spaces.simps) (simp add: k)
qed

lemma skip_eol_end:
  "eofbit (skip_eol (open_stream [lf]))"
proof -
  from get_open_ex obtain k where
    k: "get (open_stream [lf]) = (k, open_stream [])" "to_char k = lf" by blast
  have e: "eofbit (skip_eol (open_stream []))"
    by (subst skip_eol.simps)
       (simp add: get_def open_stream_def good_def to_char_eof strchr_def)
  show ?thesis
    using e by (subst skip_eol.simps) (simp add: k strchr_def)
qed

lemma skip_eol_word:
  assumes "\<not> strchr [cr, lf] x"
  shows "skip_eol (open_stream (lf # x # rest)) = open_stream (x # rest)"
proof -
  from get_open_ex obtain k where
    k: "get (open_stream (lf # x # rest)) = (k, open_stream (x # rest))" "to_char k = lf" by blast
  from get_open_ex obtain k2 where
    k2: "get (open_stream (x # rest)) = (k2, open_stream rest)" "to_char k2 = x" by blast
  have "skip_eol (open_stream (x # rest)) = open_stream (x # rest)"
    using assms by (subst skip_eol.simps) (simp add: k2 good_open putback_open)
  then show ?thesis
    by (subst skip_eol.simps) (simp add: k strchr_def)
qed

lemma save_deps_starts:
  "\<forall>j \<in> set js. safe_name j \<Longrightarrow>
   \<exists>x xs. save_deps js @ lf # rest = x # xs \<and> x \<noteq> CHR '' ''"
proof (cases js)
  case Nil
  then show ?thesis by simp
next
  case (Cons j js')
  assume "\<forall>j \<in> set js. safe_name j"
  with Cons have "safe_name j" by simp
  from escape_string_starts [OF this, of "'' '' @ save_deps js' @ lf # rest"]
  show ?thesis unfolding Cons by (auto simp: starts_word_def split: list.splits)
qed

lemma load_deps_line_saved:
  "\<forall>j \<in> set js. safe_name j \<Longrightarrow>
   load_deps_line t (open_stream (save_deps js @ lf # rest)) m =
     (open_stream (lf # rest),
      if js = [] then m else fmupd t (deps_at m t |\<union>| fset_of_list js) m)"
proof (induction js arbitrary: m)
  case Nil
  have "strchr word_delims lf" by (simp add: strchr_def word_delims_def)
  from read_word_delim [OF this, of rest] show ?case
    by (subst load_deps_line.simps) simp
next
  case (Cons j js)
  from Cons.prems have sj: "safe_name j" and sjs: "\<forall>j \<in> set js. safe_name j" by simp_all
  have sp: "strchr word_delims CHR '' ''" by (simp add: strchr_def word_delims_def)
  have r: "read_word (open_stream (escape_string j @ CHR '' '' # save_deps js @ lf # rest)) =
             (j, open_stream (CHR '' '' # save_deps js @ lf # rest))"
    using sj sp by (rule read_word_escaped)
  from sj have ne: "j \<noteq> []" by (simp add: safe_name_def)
  from save_deps_starts [OF sjs, of rest] obtain x xs where
    x: "save_deps js @ lf # rest = x # xs" "x \<noteq> CHR '' ''" by blast
  have k: "skip_spaces (open_stream (CHR '' '' # save_deps js @ lf # rest)) =
             open_stream (save_deps js @ lf # rest)"
    unfolding x(1) using x(2) by (rule skip_spaces_space)
  define m1 where "m1 = fmupd t (finsert j (deps_at m t)) m"
  have d1: "deps_at m1 t = finsert j (deps_at m t)" by (simp add: m1_def deps_at_def)
  have "load_deps_line t (open_stream (save_deps (j # js) @ lf # rest)) m =
          load_deps_line t (open_stream (save_deps js @ lf # rest)) m1"
    by (subst load_deps_line.simps) (simp add: r ne k m1_def Let_def)
  also have "\<dots> = (open_stream (lf # rest),
      if js = [] then m1 else fmupd t (deps_at m1 t |\<union>| fset_of_list js) m1)"
    using sjs by (rule Cons.IH)
  also have "(if js = [] then m1 else fmupd t (deps_at m1 t |\<union>| fset_of_list js) m1) =
      fmupd t (deps_at m t |\<union>| fset_of_list (j # js)) m"
    by (simp add: d1) (simp add: m1_def)
  finally show ?case by simp
qed

lemma eofbit_open: "\<not> eofbit (open_stream s)"
  by (simp add: open_stream_def)

lemma load_deps_loop_empty: "load_deps_loop (open_stream []) m = Inr m"
  by (subst load_deps_loop.simps)
     (simp add: open_stream_def read_word_def get_def good_def)

lemma load_deps_loop_eof: "eofbit ins \<Longrightarrow> load_deps_loop ins m = Inr m"
  by (subst load_deps_loop.simps) simp

lemma save_records_starts:
  "safe_records is m0 \<Longrightarrow> save_records is m0 = [] \<or> starts_word (save_records is m0)"
proof (induction "is")
  case Nil
  then show ?case by simp
next
  case (Cons i "is")
  from Cons.prems have r: "safe_records is m0" by (simp add: safe_records_def)
  show ?case
  proof (cases "deps_at m0 i = {||}")
    case True
    with Cons.IH [OF r] show ?thesis by simp
  next
    case False
    with Cons.prems have "safe_name i" by (simp add: safe_records_def)
    from escape_string_starts [OF this] False show ?thesis by simp
  qed
qed

lemma load_deps_loop_saved:
  "safe_records is m0 \<Longrightarrow>
   load_deps_loop (open_stream (save_records is m0)) m = Inr (merge_records is m0 m)"
proof (induction "is" arbitrary: m)
  case Nil
  show ?case by (simp add: load_deps_loop_empty merge_records_def)
next
  case (Cons i "is")
  from Cons.prems have sr: "safe_records is m0" by (simp add: safe_records_def)
  show ?case
  proof (cases "deps_at m0 i = {||}")
    case True
    with Cons.IH [OF sr, of m] show ?thesis by (simp add: merge_records_def)
  next
    case False
    define js where "js = sorted_list_of_fset (deps_at m0 i)"
    define rest where "rest = save_records is m0"
    from False have jne: "js \<noteq> []"
      by (metis js_def sorted_list_of_fset_simps(1) bot_fset.rep_eq fset_inject set_empty)
    have fj: "fset_of_list js = deps_at m0 i"
      by (simp add: js_def fset_of_list.rep_eq fset_inject [symmetric])
    from False Cons.prems have si: "safe_name i" and sjs: "\<forall>j \<in> set js. safe_name j"
      by (simp_all add: safe_records_def js_def)
    have w: "save_records (i # is) m0 =
               escape_string i @ CHR '':'' # CHR '' '' # save_deps js @ lf # rest"
      using False by (simp add: js_def rest_def)
    have co: "strchr word_delims CHR '':''" by (simp add: strchr_def word_delims_def)
    have r: "read_word (open_stream (escape_string i @ CHR '':'' # CHR '' '' # save_deps js @ lf # rest)) =
               (i, open_stream (CHR '':'' # CHR '' '' # save_deps js @ lf # rest))"
      using si co by (rule read_word_escaped)
    from si have ne: "i \<noteq> []" by (simp add: safe_name_def)
    have g: "get (open_stream (CHR '':'' # CHR '' '' # save_deps js @ lf # rest)) =
               (of_char CHR '':'', open_stream (CHR '' '' # save_deps js @ lf # rest))"
      by (rule get_open_Cons)
    from save_deps_starts [OF sjs, of rest] obtain x xs where
      x: "save_deps js @ lf # rest = x # xs" "x \<noteq> CHR '' ''" by blast
    have k: "skip_spaces (open_stream (CHR '' '' # save_deps js @ lf # rest)) =
               open_stream (save_deps js @ lf # rest)"
      unfolding x(1) using x(2) by (rule skip_spaces_space)
    define m1 where "m1 = fmupd i (deps_at m i |\<union>| deps_at m0 i) m"
    have l: "load_deps_line i (open_stream (save_deps js @ lf # rest)) m =
               (open_stream (lf # rest), m1)"
      using load_deps_line_saved [OF sjs, of i rest m] jne by (simp add: m1_def fj)
    have step: "load_deps_loop (open_stream (save_records (i # is) m0)) m =
                load_deps_loop (skip_eol (open_stream (lf # rest))) m1"
      unfolding w
      by (subst load_deps_loop.simps) (simp add: r ne g k l eofbit_open)
    have "load_deps_loop (skip_eol (open_stream (lf # rest))) m1 =
            load_deps_loop (open_stream rest) m1"
    proof (cases rest)
      case Nil
      then show ?thesis by (simp add: load_deps_loop_eof skip_eol_end load_deps_loop_empty)
    next
      case (Cons y ys)
      with save_records_starts [OF sr] have "\<not> strchr [cr, lf] y"
        by (simp add: rest_def starts_word_def)
      then show ?thesis unfolding Cons by (simp add: skip_eol_word)
    qed
    also have "\<dots> = Inr (merge_records is m0 m1)"
      unfolding rest_def using sr by (rule Cons.IH)
    finally show ?thesis
      using False step by (simp add: merge_records_def m1_def)
  qed
qed

lemma merge_records_lookup:
  "distinct is \<Longrightarrow>
   fmlookup (merge_records is m0 m) k =
     (if k \<in> set is \<and> deps_at m0 k \<noteq> {||} then Some (deps_at m k |\<union>| deps_at m0 k)
      else fmlookup m k)"
proof (induction "is" arbitrary: m)
  case Nil
  show ?case by (simp add: merge_records_def)
next
  case (Cons i "is")
  define m1 where
    "m1 = (if deps_at m0 i = {||} then m else fmupd i (deps_at m i |\<union>| deps_at m0 i) m)"
  have u: "merge_records (i # is) m0 m = merge_records is m0 m1"
    by (simp add: merge_records_def m1_def)
  from Cons.prems have d: "distinct is" and ni: "i \<notin> set is" by simp_all
  have o: "k \<noteq> i \<Longrightarrow> fmlookup m1 k = fmlookup m k \<and> deps_at m1 k = deps_at m k"
    by (simp add: m1_def deps_at_def)
  have s: "fmlookup m1 i =
      (if deps_at m0 i = {||} then fmlookup m i else Some (deps_at m i |\<union>| deps_at m0 i))"
    by (simp add: m1_def)
  show ?case
  proof (cases "k = i")
    case True
    with ni Cons.IH [OF d, of m1] s show ?thesis unfolding u by simp
  next
    case False
    with Cons.IH [OF d, of m1] o show ?thesis unfolding u by simp
  qed
qed

lemma merge_records_all:
  assumes "\<forall>k. k |\<in>| fmdom m0 \<longrightarrow> deps_at m0 k \<noteq> {||}"
  shows "merge_records (sorted_list_of_fset (fmdom m0)) m0 fmempty = m0"
proof (rule fmap_ext)
  fix k
  have d: "distinct (sorted_list_of_fset (fmdom m0))"
    by (simp add: sorted_list_of_fset.rep_eq)
  show "fmlookup (merge_records (sorted_list_of_fset (fmdom m0)) m0 fmempty) k = fmlookup m0 k"
  proof (cases "k |\<in>| fmdom m0")
    case True
    then obtain v where v: "fmlookup m0 k = Some v" by (cases "fmlookup m0 k") (auto dest: fmdom_notI)
    from True assms have "deps_at m0 k \<noteq> {||}" by blast
    with True v show ?thesis
      by (simp add: merge_records_lookup [OF d] deps_at_def)
  next
    case False
    then have "fmlookup m0 k = None" by (simp add: fmdom_notD)
    with False show ?thesis by (simp add: merge_records_lookup [OF d])
  qed
qed

lemma load_saved_dependencies:
  assumes "\<forall>k. k |\<in>| fmdom (g_deps st) \<longrightarrow> deps_at (g_deps st) k \<noteq> {||} \<and> safe_name k \<and>
             (\<forall>j. j |\<in>| deps_at (g_deps st) k \<longrightarrow> safe_name j)"
  shows "load_dependencies ((save_dependencies st)\<lparr>g_deps := fmempty\<rparr>) = Inr (save_dependencies st)"
proof -
  define ks where "ks = sorted_list_of_fset (fmdom (g_deps st))"
  have "safe_records ks (g_deps st)"
    using assms by (auto simp: safe_records_def ks_def)
  then have "load_deps_loop (open_stream (save_records ks (g_deps st))) fmempty =
               Inr (merge_records ks (g_deps st) fmempty)"
    by (rule load_deps_loop_saved)
  also have "merge_records ks (g_deps st) fmempty = g_deps st"
    unfolding ks_def using assms by (intro merge_records_all) blast
  finally show ?thesis
    by (simp add: load_dependencies_def save_dependencies_def ks_def)
qed






section \<open>Properties\<close>

subsection \<open>Rule selection\<close>

lemma candidates_stem_le:
  "c \<in> set (candidates m rs target) \<Longrightarrow> length (snd c) \<le> length target"
proof -
  assume "c \<in> set (candidates m rs target)"
  then obtain p where "spec_stem m p target = Some (snd c)"
    by (auto simp: candidates_def List.map_filter_def split: if_splits)
  then have "length (snd c) = length target - (length p - 1)"
    by (simp add: spec_stem_length)
  then show ?thesis by simp
qed

lemma candidates_filter_id:
  "length target < n \<Longrightarrow>
   filter (\<lambda>c. length (snd c) < n) (candidates m rs target) = candidates m rs target"
  by (rule filter_True) (auto dest: candidates_stem_le)

text \<open>
  C2. A non-generic rule that lists the target wins over every generic match, and the
  first such rule is returned as it is. Otherwise, for a target shorter than 10000
  characters and rules of which at most one target pattern each matches the target,
  \<^const>\<open>find_rule\<close> returns what the specification describes (with the non-empty stems of
  the code): the instantiation of the matching generic rule with the shortest stem, the
  first one among equals, or the empty rule when nothing matches. When several patterns
  of one rule match, the code can miss the shortest stem: its inner loop leaves a rule at
  the first pattern that matches with a stem shorter than the best so far. With the rules
  \<open>%.o foo.%.o\<close> and \<open>f%.o\<close> and the target \<open>foo.bar.o\<close>, the first rule is taken with the stem
  \<open>foo.bar\<close> of its first pattern, its second pattern (stem \<open>bar\<close>) is never tried, and the
  second rule wins with the stem \<open>oo.bar\<close>; with the two rules in the other order the first
  rule wins with the stem \<open>bar\<close>.
\<close>

theorem find_rule_selection:
  "(find (\<lambda>r. \<not> generic r \<and> target \<in> set (targets r)) rs = Some r \<longrightarrow>
      find_rule rs target = r) \<and>
   (length target < 10000 \<and> single_match rs target \<longrightarrow>
      find_rule rs target = spec_find_rule 1 rs target) \<and>
   find_rule
     [\<lparr>generic = True, targets = [''%.o'', ''foo.%.o''], deps = [], script = ''A''\<rparr>,
      \<lparr>generic = True, targets = [''f%.o''], deps = [], script = ''X''\<rparr>]
     ''foo.bar.o'' =
   \<lparr>generic = False, targets = [''foo.bar.o''], deps = [], script = ''X''\<rparr> \<and>
   spec_find_rule 1
     [\<lparr>generic = True, targets = [''%.o'', ''foo.%.o''], deps = [], script = ''A''\<rparr>,
      \<lparr>generic = True, targets = [''f%.o''], deps = [], script = ''X''\<rparr>]
     ''foo.bar.o'' =
   \<lparr>generic = False, targets = [''bar.o'', ''foo.bar.o''], deps = [], script = ''A''\<rparr> \<and>
   spec_stem 1 ''foo.%.o'' ''foo.bar.o'' = Some ''bar'' \<and>
   spec_stem 1 ''f%.o'' ''foo.bar.o'' = Some ''oo.bar'' \<and>
   find_rule
     [\<lparr>generic = True, targets = [''f%.o''], deps = [], script = ''X''\<rparr>,
      \<lparr>generic = True, targets = [''%.o'', ''foo.%.o''], deps = [], script = ''A''\<rparr>]
     ''foo.bar.o'' =
   \<lparr>generic = False, targets = [''bar.o'', ''foo.bar.o''], deps = [], script = ''A''\<rparr>"
proof -
  have a: "find (\<lambda>r. \<not> generic r \<and> target \<in> set (targets r)) rs = Some r \<longrightarrow>
      find_rule rs target = r"
    by (simp add: find_rule_def find_rule_loop_nongeneric)
  have b: "length target < 10000 \<and> single_match rs target \<longrightarrow>
      find_rule rs target = spec_find_rule 1 rs target"
  proof
    assume h: "length target < 10000 \<and> single_match rs target"
    show "find_rule rs target = spec_find_rule 1 rs target"
    proof (cases "find (\<lambda>r. \<not> generic r \<and> target \<in> set (targets r)) rs")
      case (Some r)
      then show ?thesis
        by (simp add: find_rule_def find_rule_loop_nongeneric spec_find_rule_def)
    next
      case None
      have "find_rule rs target =
          (case shortest (candidates 1 rs target) of
             None \<Rightarrow> rule_t0 | Some (r, s) \<Rightarrow> instantiate r s)"
        unfolding find_rule_def using h None
        by (simp add: find_rule_loop_generic candidates_filter_id)
      then show ?thesis using None by (simp add: spec_find_rule_def)
    qed
  qed
  have c: "find_rule
     [\<lparr>generic = True, targets = [''%.o'', ''foo.%.o''], deps = [], script = ''A''\<rparr>,
      \<lparr>generic = True, targets = [''f%.o''], deps = [], script = ''X''\<rparr>]
     ''foo.bar.o'' =
   \<lparr>generic = False, targets = [''foo.bar.o''], deps = [], script = ''X''\<rparr>"
    by code_simp
  have d: "spec_find_rule 1
     [\<lparr>generic = True, targets = [''%.o'', ''foo.%.o''], deps = [], script = ''A''\<rparr>,
      \<lparr>generic = True, targets = [''f%.o''], deps = [], script = ''X''\<rparr>]
     ''foo.bar.o'' =
   \<lparr>generic = False, targets = [''bar.o'', ''foo.bar.o''], deps = [], script = ''A''\<rparr>"
    by code_simp
  have e: "spec_stem 1 ''foo.%.o'' ''foo.bar.o'' = Some ''bar''" by code_simp
  have f: "spec_stem 1 ''f%.o'' ''foo.bar.o'' = Some ''oo.bar''" by code_simp
  have g: "find_rule
     [\<lparr>generic = True, targets = [''f%.o''], deps = [], script = ''X''\<rparr>,
      \<lparr>generic = True, targets = [''%.o'', ''foo.%.o''], deps = [], script = ''A''\<rparr>]
     ''foo.bar.o'' =
   \<lparr>generic = False, targets = [''bar.o'', ''foo.bar.o''], deps = [], script = ''A''\<rparr>"
    by code_simp
  from a b c d e f g show ?thesis by (intro conjI)
qed

theorem find_rule_selection_witness:
  "length ''foo.bar.o'' < 10000 \<and>
   single_match
     [\<lparr>generic = True, targets = [''%.o''], deps = [''%.c''], script = ''cc''\<rparr>,
      \<lparr>generic = True, targets = [''foo.%.o''], deps = [''foo.%.c''], script = ''foocc''\<rparr>]
     ''foo.bar.o'' \<and>
   find_rule
     [\<lparr>generic = True, targets = [''%.o''], deps = [''%.c''], script = ''cc''\<rparr>,
      \<lparr>generic = True, targets = [''foo.%.o''], deps = [''foo.%.c''], script = ''foocc''\<rparr>]
     ''foo.bar.o'' =
   \<lparr>generic = False, targets = [''foo.bar.o''], deps = [''foo.bar.c''], script = ''foocc''\<rparr> \<and>
   find_rule
     [\<lparr>generic = True, targets = [''%''], deps = [], script = ''any''\<rparr>,
      \<lparr>generic = False, targets = [''x'', ''all''], deps = [''y''], script = ''make''\<rparr>]
     ''all'' =
   \<lparr>generic = False, targets = [''x'', ''all''], deps = [''y''], script = ''make''\<rparr>"
proof -
  let ?R1 = "\<lparr>generic = True, targets = [''%.o''], deps = [''%.c''], script = ''cc''\<rparr>"
  let ?R2 = "\<lparr>generic = True, targets = [''foo.%.o''], deps = [''foo.%.c''], script = ''foocc''\<rparr>"
  let ?G = "\<lparr>generic = True, targets = [''%''], deps = [], script = ''any''\<rparr>"
  let ?N = "\<lparr>generic = False, targets = [''x'', ''all''], deps = [''y''], script = ''make''\<rparr>"
  have a: "length ''foo.bar.o'' < 10000" by simp
  have b: "single_match [?R1, ?R2] ''foo.bar.o''" by code_simp
  have c: "spec_find_rule 1 [?R1, ?R2] ''foo.bar.o'' =
      \<lparr>generic = False, targets = [''foo.bar.o''], deps = [''foo.bar.c''], script = ''foocc''\<rparr>"
    by code_simp
  have d: "find (\<lambda>r. \<not> generic r \<and> ''all'' \<in> set (targets r)) [?G, ?N] = Some ?N"
    by simp
  from find_rule_selection [of "''foo.bar.o''" "[?R1, ?R2]"] a b c
  have e: "find_rule [?R1, ?R2] ''foo.bar.o'' =
      \<lparr>generic = False, targets = [''foo.bar.o''], deps = [''foo.bar.c''], script = ''foocc''\<rparr>"
    by simp
  from find_rule_selection [of "''all''" "[?G, ?N]" ?N] d
  have f: "find_rule [?G, ?N] ''all'' = ?N" by blast
  from a b e f show ?thesis by blast
qed

subsection \<open>Pattern matching\<close>

text \<open>
  C3 (as amended). For a rule list holding one generic rule with the single target pattern
  \<open>prefix % suffix\<close> (no \<^verbatim>\<open>%\<close> in the prefix), \<^const>\<open>find_rule\<close> matches a target exactly
  when the target is at least one character longer than prefix and suffix together, the
  stem is shorter than 10000 characters, and the target begins with the prefix and ends with
  the suffix; it then returns the rule instantiated with the stem. A target of length
  exactly \<open>len(prefix) + len(suffix)\<close> is not matched: the stem is never empty.
\<close>

theorem find_rule_pattern_match:
  assumes "CHR ''%'' \<notin> set pre"
  shows "find_rule [\<lparr>generic = True, targets = [pre @ CHR ''%'' # suf], deps = ds, script = sc\<rparr>] target =
     (if length pre + length suf + 1 \<le> length target \<and>
         length target - (length pre + length suf) < 10000 \<and>
         prefix pre target \<and> suffix suf target
      then instantiate \<lparr>generic = True, targets = [pre @ CHR ''%'' # suf], deps = ds, script = sc\<rparr>
             (take (length target - (length pre + length suf)) (drop (length pre) target))
      else rule_t0)"
proof -
  let ?p = "pre @ CHR ''%'' # suf"
  let ?stem = "take (length target - (length pre + length suf)) (drop (length pre) target)"
  have fc: "find_char CHR ''%'' ?p = Some (length pre)"
    using assms by (rule find_char_append)
  have st: "spec_stem (Suc 0) ?p target =
      (if length pre + length suf + 1 \<le> length target \<and> prefix pre target \<and> suffix suf target
       then Some ?stem else None)"
    by (simp add: spec_stem_def fc Let_def)
  have len: "length pre + length suf + 1 \<le> length target \<Longrightarrow>
      length ?stem = length target - (length pre + length suf)"
    by simp
  show ?thesis
    using len
    by (simp add: find_rule_def find_rule_targets_generic List.map_filter_simps st
          del: find_rule_targets.simps)
qed

theorem find_rule_pattern_match_witness:
  "CHR ''%'' \<notin> set ''lib'' \<and>
   find_rule [\<lparr>generic = True, targets = [''lib%.a''], deps = [''%.o''], script = ''ar''\<rparr>] ''libm.a'' =
     \<lparr>generic = False, targets = [''libm.a''], deps = [''m.o''], script = ''ar''\<rparr> \<and>
   find_rule [\<lparr>generic = True, targets = [''lib%.a''], deps = [''%.o''], script = ''ar''\<rparr>] ''lib.a'' =
     rule_t0"
proof -
  have a: "CHR ''%'' \<notin> set ''lib''" by simp
  have b: "find_rule [\<lparr>generic = True, targets = [''lib%.a''], deps = [''%.o''], script = ''ar''\<rparr>] ''libm.a'' =
     \<lparr>generic = False, targets = [''libm.a''], deps = [''m.o''], script = ''ar''\<rparr>"
    using find_rule_pattern_match [OF a, of "''.a''" "[''%.o'']" "''ar''" "''libm.a''"]
    by (simp add: instantiate_def subst_stem_def suffix_drop_iff prefix_take_iff)
  have c: "find_rule [\<lparr>generic = True, targets = [''lib%.a''], deps = [''%.o''], script = ''ar''\<rparr>] ''lib.a'' =
     rule_t0"
    using find_rule_pattern_match [OF a, of "''.a''" "[''%.o'']" "''ar''" "''lib.a''"]
    by (simp add: suffix_drop_iff prefix_take_iff)
  from a b c show ?thesis by blast
qed

theorem find_rule_empty_stem_counterexample:
  "length ''a'' + length ''b'' \<le> length ''ab'' \<and> prefix ''a'' ''ab'' \<and> suffix ''b'' ''ab'' \<and>
   spec_stem 0 ''a%b'' ''ab'' = Some [] \<and>
   find_rule [\<lparr>generic = True, targets = [''a%b''], deps = [], script = ''s''\<rparr>] ''ab'' = rule_t0 \<and>
   targets (find_rule [\<lparr>generic = True, targets = [''a%b''], deps = [], script = ''s''\<rparr>] ''ab'') = []"
  by code_simp

subsection \<open>The status cache\<close>






subsection \<open>Job completion\<close>




subsection \<open>Slot accounting\<close>

text \<open>
  C4. With \<open>active = running_jobs - waiting_jobs\<close>: \<^const>\<open>has_free_slots\<close> is exactly
  \<open>max_active_jobs \<le> 0 \<or> active < max_active_jobs\<close>. The bound \<open>active \<le> max_active_jobs\<close> for
  a positive cap (\<^const>\<open>slots_ok\<close>) holds when both counters are zero, and is kept by
  \<^verbatim>\<open>update_clients\<close>, by the handling of one event, and by the whole of
  \<^verbatim>\<open>server_loop\<close>, whatever the events are and wherever the run stops; inside
  \<^verbatim>\<open>update_clients\<close>, a script is started and a request completed only from a state with
  free slots, and either keeps the bound.
\<close>

theorem slot_invariant:
  "(has_free_slots st \<longleftrightarrow> max_active_jobs st \<le> 0 \<or> active st < max_active_jobs st) \<and>
   (running_jobs st = 0 \<and> waiting_jobs st = 0 \<longrightarrow> slots_ok st) \<and>
   (has_free_slots st \<and> run_script jid rule st = Inr st1 \<longrightarrow> slots_ok st1) \<and>
   (has_free_slots st \<and> complete_request c success st = Inr st2 \<longrightarrow> slots_ok st2) \<and>
   (slots_ok st \<and> update_clients fuel st = Inr r \<longrightarrow> slots_ok (run_state r)) \<and>
   (slots_ok st \<and> handle_event ev st = Inr st3 \<longrightarrow> slots_ok st3) \<and>
   (slots_ok st \<and> server_loop fuel evs st = Inr q \<longrightarrow> slots_ok (fst (run_state q)))"
proof (intro conjI impI)
  show "has_free_slots st \<longleftrightarrow> max_active_jobs st \<le> 0 \<or> active st < max_active_jobs st"
    by (rule has_free_slots_active)
next
  assume "running_jobs st = 0 \<and> waiting_jobs st = 0"
  then show "slots_ok st" by (simp add: slots_ok_def active_def)
next
  assume a: "has_free_slots st \<and> run_script jid rule st = Inr st1"
  then have r: "run_script jid rule st = Inr st1" and f: "has_free_slots st" by simp_all
  from f run_script_counters(1,2) [OF r] show "slots_ok st1" by (rule slots_ok_step)
next
  assume a: "has_free_slots st \<and> complete_request c success st = Inr st2"
  then have r: "complete_request c success st = Inr st2" and f: "has_free_slots st" by simp_all
  from f complete_request_counters(1,2) [OF r] show "slots_ok st2" by (rule slots_ok_step)
next
  assume "slots_ok st \<and> update_clients fuel st = Inr r"
  then show "slots_ok (run_state r)"
    using update_loop_slots [of st fuel "[]" "clients st" r] by (simp add: update_clients_def)
next
  assume "slots_ok st \<and> handle_event ev st = Inr st3"
  then show "slots_ok st3"
    using handle_event_counters [of ev st st3] by (auto intro: slots_ok_le)
next
  assume "slots_ok st \<and> server_loop fuel evs st = Inr q"
  then show "slots_ok (fst (run_state q))"
    using server_loop_slots by blast
qed

theorem slot_invariant_witness:
  "has_free_slots two_rules \<and> slots_ok two_rules \<and>
   (\<exists>s. run_script 0 (hd (rules two_rules)) two_rules = Inr s \<and> slots_ok s) \<and>
   (\<exists>s. complete_request (hd (clients two_rules)) True two_rules = Inr s \<and> slots_ok s) \<and>
   (\<exists>r. update_clients 10 two_rules = Inr r \<and> slots_ok (run_state r)) \<and>
   (\<exists>s. handle_event (hd two_rules_events) two_rules = Inr s \<and> slots_ok s) \<and>
   (\<exists>q. server_loop 10 (take 1 two_rules_events) two_rules = Inr q \<and>
        slots_ok (fst (run_state q)) \<and> active (fst (run_state q)) = 1) \<and>
   (\<exists>q. server_loop 10 two_rules_events two_rules = Inr q \<and> slots_ok (fst (run_state q)))"
proof -
  have z: "running_jobs two_rules = 0 \<and> waiting_jobs two_rules = 0"
    by (simp add: two_rules_def)
  have f: "has_free_slots two_rules" by (simp add: has_free_slots_def two_rules_def)
  have ok: "slots_ok two_rules"
    using slot_invariant [of two_rules] z by blast
  have "\<exists>s. run_script 0 (hd (rules two_rules)) two_rules = Inr s"
    by (rule returnsI) code_simp
  then obtain s1 where s1: "run_script 0 (hd (rules two_rules)) two_rules = Inr s1" ..
  have a: "slots_ok s1"
    using slot_invariant [of two_rules 0 "hd (rules two_rules)" s1] f s1 by blast
  have "\<exists>s. complete_request (hd (clients two_rules)) True two_rules = Inr s"
    by (rule returnsI) code_simp
  then obtain s2 where s2: "complete_request (hd (clients two_rules)) True two_rules = Inr s2" ..
  have b: "slots_ok s2"
    using slot_invariant [of two_rules _ _ _ "hd (clients two_rules)" True s2] f s2 by blast
  have "\<exists>r. update_clients 10 two_rules = Inr r"
    by (rule returnsI) code_simp
  then obtain r where r: "update_clients 10 two_rules = Inr r" ..
  have c: "slots_ok (run_state r)"
    using slot_invariant [of two_rules _ _ _ _ _ _ 10 r] ok r by blast
  have "\<exists>s. handle_event (hd two_rules_events) two_rules = Inr s"
    by (rule returnsI) code_simp
  then obtain s3 where s3: "handle_event (hd two_rules_events) two_rules = Inr s3" ..
  have d: "slots_ok s3"
    using slot_invariant [of two_rules _ _ _ _ _ _ _ _ "hd two_rules_events" s3] ok s3 by blast
  have run1: "case server_loop 10 (take 1 two_rules_events) two_rules of
          Inl e \<Rightarrow> False | Inr q \<Rightarrow> active (fst (run_state q)) = 1"
    by code_simp
  then have "\<exists>q. server_loop 10 (take 1 two_rules_events) two_rules = Inr q"
    by (cases "server_loop 10 (take 1 two_rules_events) two_rules") auto
  then obtain q1 where q1: "server_loop 10 (take 1 two_rules_events) two_rules = Inr q1" ..
  have e: "slots_ok (fst (run_state q1))"
    using slot_invariant [of two_rules _ _ _ _ _ _ 10 _ _ _ "take 1 two_rules_events" q1] ok q1
    by blast
  from run1 have e': "active (fst (run_state q1)) = 1" unfolding q1 by simp
  have "\<exists>q. server_loop 10 two_rules_events two_rules = Inr q"
    by (rule returnsI) code_simp
  then obtain q2 where q2: "server_loop 10 two_rules_events two_rules = Inr q2" ..
  have g: "slots_ok (fst (run_state q2))"
    using slot_invariant [of two_rules _ _ _ _ _ _ 10 _ _ _ two_rules_events q2] ok q2
    by blast
  from f ok s1 a s2 b r c s3 d q1 e e' q2 g show ?thesis by blast
qed

subsection \<open>Static dependencies\<close>



subsection \<open>A client without targets\<close>

text \<open>
  C10. \<^verbatim>\<open>client_mode\<close> with an empty list of targets exits with status 0 and has made no
  system call: no socket, no connection, nothing sent. So does the process when its
  arguments are read to the end without a target and \<^verbatim>\<open>REMAKE_SOCKET\<close> is in the
  environment.
\<close>

theorem client_mode_no_targets:
  "client_mode cs getenv sn [] = (Exit 0, []) \<and>
   (parse_args args (False, max_active_jobs st, []) = Inr (dbg, jobs, []) \<longrightarrow>
    getenv ''REMAKE_SOCKET'' = Some sn \<longrightarrow>
    main args getenv cs sys fuel evs st = (Inl (Exit 0), []))"
  by (simp add: client_mode_def main_def)

theorem client_mode_no_targets_witness:
  "parse_args [''-d'', ''-j4''] (False, max_active_jobs two_files, []) = Inr (True, 4, []) \<and>
   client_mode client_ok [''REMAKE_SOCKET'' \<mapsto> ''/tmp/rmk-0''] ''/tmp/rmk-0'' [] = (Exit 0, []) \<and>
   main [''-d'', ''-j4''] [''REMAKE_SOCKET'' \<mapsto> ''/tmp/rmk-0''] client_ok sys_ok 10 [] two_files
     = (Inl (Exit 0), [])"
proof -
  have p: "parse_args [''-d'', ''-j4''] (False, max_active_jobs two_files, []) = Inr (True, 4, [])"
    by code_simp
  have e: "[''REMAKE_SOCKET'' \<mapsto> ''/tmp/rmk-0''] ''REMAKE_SOCKET'' = Some ''/tmp/rmk-0''"
    by simp
  from client_mode_no_targets
    [of client_ok "[''REMAKE_SOCKET'' \<mapsto> ''/tmp/rmk-0'']" "''/tmp/rmk-0''"
        "[''-d'', ''-j4'']" two_files True 4 sys_ok 10 "[]"] p e
  show ?thesis by blast
qed

subsection \<open>Escaping and reading back\<close>

text \<open>
  C8. The claim: reading back the output of \<^const>\<open>escape_string\<close> with \<^const>\<open>read_word\<close>
  yields the string again. What the code does: a string with a character of the escape set
  (to which \<^verbatim>\<open>strchr\<close> adds the nul character) is written quoted and is read back as it
  was; a string without one is written as it is, and is read back only up to its first
  tab, carriage return, line feed or colon. So nothing in \<open>a:b\<close> is in the escape set, it
  is written bare, and the reader stops at the colon and returns \<open>a\<close>.
\<close>

theorem escape_read_word_colon:
  "fst (read_word (open_stream (escape_string s))) =
     (if \<exists>c \<in> set s. strchr escape_chars c then s
      else takeWhile (\<lambda>c. \<not> strchr word_delims c) s) \<and>
   (\<not> (\<exists>c \<in> set s. strchr escape_chars c) \<longrightarrow> escape_string s = s) \<and>
   escape_string ''a:b'' = ''a:b'' \<and>
   fst (read_word (open_stream (escape_string ''a:b''))) = ''a''"
proof -
  have a: "escape_string ''a:b'' = ''a:b''" by code_simp
  have r: "fst (read_word (open_stream (escape_string ''a:b''))) = ''a''" by code_simp
  have b: "\<not> (\<exists>c \<in> set s. strchr escape_chars c) \<longrightarrow> escape_string s = s"
    by (simp add: escape_string_plain)
  from escape_read_word_back [of s] b a r show ?thesis by (intro conjI)
qed

theorem escape_read_word_colon_witness:
  "\<not> (\<exists>c \<in> set ''a:b''. strchr escape_chars c) \<and>
   escape_string ''a:b'' = ''a:b'' \<and>
   takeWhile (\<lambda>c. \<not> strchr word_delims c) ''a:b'' = ''a'' \<and>
   fst (read_word (open_stream (escape_string ''a:b''))) = ''a'' \<and>
   (\<exists>c \<in> set ''a b''. strchr escape_chars c) \<and>
   fst (read_word (open_stream (escape_string ''a b''))) = ''a b''"
proof -
  have n: "\<not> (\<exists>c \<in> set ''a:b''. strchr escape_chars c)"
    by (simp add: strchr_def escape_chars_def)
  have t: "takeWhile (\<lambda>c. \<not> strchr word_delims c) ''a:b'' = ''a''"
    by (simp add: strchr_def word_delims_def)
  have q: "\<exists>c \<in> set ''a b''. strchr escape_chars c"
    by (simp add: strchr_def escape_chars_def)
  from escape_read_word_colon [of "''a:b''"] n
  have e: "escape_string ''a:b'' = ''a:b''" by blast
  from escape_read_word_colon [of "''a:b''"]
  have "fst (read_word (open_stream (escape_string ''a:b''))) =
     (if \<exists>c \<in> set ''a:b''. strchr escape_chars c then ''a:b''
      else takeWhile (\<lambda>c. \<not> strchr word_delims c) ''a:b'')" by blast
  with n t have 1: "fst (read_word (open_stream (escape_string ''a:b''))) = ''a''"
    by (simp only: if_False)
  from escape_read_word_colon [of "''a b''"]
  have "fst (read_word (open_stream (escape_string ''a b''))) =
     (if \<exists>c \<in> set ''a b''. strchr escape_chars c then ''a b''
      else takeWhile (\<lambda>c. \<not> strchr word_delims c) ''a b'')" by blast
  with q have 2: "fst (read_word (open_stream (escape_string ''a b''))) = ''a b''"
    by (simp only: if_True)
  from n e t 1 q 2 show ?thesis by (intro conjI)
qed

subsection \<open>The dependency database\<close>

text \<open>
  C7. The claim: saving a dependency map whose sets are all non-empty and loading the file
  again gives the same map. The code does this when every name in the map is safe: not
  empty, and either quoted by \<^const>\<open>escape_string\<close> or without tab, carriage return, line
  feed and colon. It does not when a bare name has a colon: the map
  \<open>a:b \<mapsto> {c}, x \<mapsto> {w}\<close> is written as the two lines \<open>a:b: c\<close> and \<open>x: w\<close>, and read back
  as \<open>a \<mapsto> {b}\<close> alone, because the target is written bare and the reader stops at the
  first colon, then gives up at the second. A target with an empty set is not written.
\<close>

theorem save_load_colon:
  "((\<forall>k. k |\<in>| fmdom (g_deps st) \<longrightarrow> deps_at (g_deps st) k \<noteq> {||} \<and> safe_name k \<and>
         (\<forall>j. j |\<in>| deps_at (g_deps st) k \<longrightarrow> safe_name j)) \<longrightarrow>
    load_dependencies ((save_dependencies st)\<lparr>g_deps := fmempty\<rparr>) = Inr (save_dependencies st)) \<and>
   (deps_at m i = {||} \<longrightarrow> save_records (i # is) m = save_records is m) \<and>
   contents (save_dependencies
      (two_files\<lparr>g_deps := fmupd ''a:b'' {|''c''|} (fmupd ''x'' {|''w''|} fmempty)\<rparr>)) ''.remake'' =
     Some (''a:b: c '' @ [lf] @ ''x: w '' @ [lf]) \<and>
   (case load_dependencies
      ((save_dependencies
         (two_files\<lparr>g_deps := fmupd ''a:b'' {|''c''|} (fmupd ''x'' {|''w''|} fmempty)\<rparr>))
       \<lparr>g_deps := fmempty\<rparr>) of
      Inl e \<Rightarrow> False
    | Inr st \<Rightarrow>
        map (\<lambda>k. (k, sorted_list_of_fset (deps_at (g_deps st) k)))
          (sorted_list_of_fset (fmdom (g_deps st))) = [(''a'', [''b''])])"
proof -
  have a: "(\<forall>k. k |\<in>| fmdom (g_deps st) \<longrightarrow> deps_at (g_deps st) k \<noteq> {||} \<and> safe_name k \<and>
         (\<forall>j. j |\<in>| deps_at (g_deps st) k \<longrightarrow> safe_name j)) \<longrightarrow>
    load_dependencies ((save_dependencies st)\<lparr>g_deps := fmempty\<rparr>) = Inr (save_dependencies st)"
    using load_saved_dependencies by blast
  have b: "deps_at m i = {||} \<longrightarrow> save_records (i # is) m = save_records is m" by simp
  have c: "contents (save_dependencies
      (two_files\<lparr>g_deps := fmupd ''a:b'' {|''c''|} (fmupd ''x'' {|''w''|} fmempty)\<rparr>)) ''.remake'' =
     Some (''a:b: c '' @ [lf] @ ''x: w '' @ [lf])"
    by code_simp
  have d: "(case load_dependencies
      ((save_dependencies
         (two_files\<lparr>g_deps := fmupd ''a:b'' {|''c''|} (fmupd ''x'' {|''w''|} fmempty)\<rparr>))
       \<lparr>g_deps := fmempty\<rparr>) of
      Inl e \<Rightarrow> False
    | Inr st \<Rightarrow>
        map (\<lambda>k. (k, sorted_list_of_fset (deps_at (g_deps st) k)))
          (sorted_list_of_fset (fmdom (g_deps st))) = [(''a'', [''b''])])"
    by code_simp
  from a b c d show ?thesis by (intro conjI)
qed

theorem save_load_colon_witness:
  "safe_name ''a b'' \<and> safe_name ''c:d e'' \<and> safe_name ''f'' \<and> safe_name ''x'' \<and> safe_name ''w'' \<and>
   contents (save_dependencies quoted_deps) ''.remake'' =
     Some ([dquote] @ ''a'' @ [backslash] @ '' b'' @ [dquote] @ '': '' @
           [dquote] @ ''c:d'' @ [backslash] @ '' e'' @ [dquote] @ '' f '' @ [lf] @ ''x: w '' @ [lf]) \<and>
   load_dependencies ((save_dependencies quoted_deps)\<lparr>g_deps := fmempty\<rparr>) =
     Inr (save_dependencies quoted_deps) \<and>
   deps_at (fmupd ''e'' {||} fmempty) ''e'' = {||} \<and>
   save_records [''e'', ''x''] (fmupd ''e'' {||} (fmupd ''x'' {|''w''|} fmempty)) = ''x: w '' @ [lf]"
proof -
  have s: "safe_name ''a b''" "safe_name ''c:d e''" "safe_name ''f''" "safe_name ''x''" "safe_name ''w''"
    by (simp_all add: safe_name_def strchr_def escape_chars_def word_delims_def)
  have c: "contents (save_dependencies quoted_deps) ''.remake'' =
     Some ([dquote] @ ''a'' @ [backslash] @ '' b'' @ [dquote] @ '': '' @
           [dquote] @ ''c:d'' @ [backslash] @ '' e'' @ [dquote] @ '' f '' @ [lf] @ ''x: w '' @ [lf])"
    by code_simp
  have h: "\<forall>k. k |\<in>| fmdom (g_deps quoted_deps) \<longrightarrow>
             deps_at (g_deps quoted_deps) k \<noteq> {||} \<and> safe_name k \<and>
             (\<forall>j. j |\<in>| deps_at (g_deps quoted_deps) k \<longrightarrow> safe_name j)"
    using s by (auto simp: quoted_deps_def deps_at_def)
  from save_load_colon [of quoted_deps] h
  have l: "load_dependencies ((save_dependencies quoted_deps)\<lparr>g_deps := fmempty\<rparr>) =
     Inr (save_dependencies quoted_deps)" by blast
  have e: "deps_at (fmupd ''e'' {||} fmempty) ''e'' = {||}" by (simp add: deps_at_def)
  have e2: "deps_at (fmupd ''e'' {||} (fmupd ''x'' {|''w''|} fmempty)) ''e'' = {||}"
    by (simp add: deps_at_def)
  from save_load_colon [of _ "fmupd ''e'' {||} (fmupd ''x'' {|''w''|} fmempty)" "''e''" "[''x'']"] e2
  have "save_records [''e'', ''x''] (fmupd ''e'' {||} (fmupd ''x'' {|''w''|} fmempty)) =
        save_records [''x''] (fmupd ''e'' {||} (fmupd ''x'' {|''w''|} fmempty))" by blast
  also have "\<dots> = ''x: w '' @ [lf]" by code_simp
  finally have r: "save_records [''e'', ''x''] (fmupd ''e'' {||} (fmupd ''x'' {|''w''|} fmempty)) =
        ''x: w '' @ [lf]" .
  from s c l e r show ?thesis by (intro conjI)
qed

subsection \<open>The failure flag and the exit code\<close>




end
